theory Spec2Isabelle
  imports Main
begin

section \<open>os.layer.preset.LayerPresetManager\<close>

text \<open>
  A shallow embedding of \<^verbatim>\<open>src/os/layer/preset/layerpresetmanager.js\<close>. The manager
  keeps two dictionaries (\<^verbatim>\<open>presets_\<close>, \<^verbatim>\<open>requested_\<close>) and coordinates promises.
  The embedding passes the whole observable state explicitly: the two dictionaries, the
  promises the manager has created, the queue of promise callbacks waiting to run, the
  network requests and feature-action loads it has issued, the logger's error lines, the
  settings store and the commands executed.
\<close>

subsection \<open>Plain objects used as dictionaries\<close>

text \<open>
  \<^verbatim>\<open>presets_\<close>, \<^verbatim>\<open>requested_\<close> and the two settings values are plain objects
  (\<^verbatim>\<open>{}\<close>, lines 30, 37, 140 and 174), read with \<^verbatim>\<open>obj[key]\<close>. Such a read finds
  the object's own property, and otherwise a member of \<^verbatim>\<open>Object.prototype\<close> of that
  name. \<open>proto_members\<close> are the names of these members; each of them is truthy (eleven
  functions, and under \<^verbatim>\<open>__proto__\<close> the prototype object itself).
\<close>

definition proto_members :: "string set" where
  "proto_members =
     {''constructor'', ''hasOwnProperty'', ''isPrototypeOf'', ''propertyIsEnumerable'',
      ''toLocaleString'', ''toString'', ''valueOf'', ''__defineGetter__'',
      ''__defineSetter__'', ''__lookupGetter__'', ''__lookupSetter__'', ''__proto__''}"

text \<open>
  The \<^verbatim>\<open>length\<close> of such a member: the number of parameters of the function; the
  prototype object has none, which reads as \<^verbatim>\<open>undefined\<close> and counts as 0 here.
\<close>

definition member_length :: "string \<Rightarrow> nat" where
  "member_length m =
     (if m \<in> {''__defineGetter__'', ''__defineSetter__''} then 2
      else if m \<in> {''constructor'', ''hasOwnProperty'', ''isPrototypeOf'',
                    ''propertyIsEnumerable'', ''__lookupGetter__'', ''__lookupSetter__''}
      then 1 else 0)"

text \<open>
  The result of \<^verbatim>\<open>obj[key]\<close> on an object whose own properties are the map \<open>m\<close>:
  an own value, an inherited member, or \<^verbatim>\<open>undefined\<close>.
\<close>

datatype 'a lookup = Own 'a | Inherited string | Missing

definition get_prop :: "(string \<rightharpoonup> 'a) \<Rightarrow> string \<Rightarrow> 'a lookup" where
  "get_prop m key =
     (case m key of
        Some v \<Rightarrow> Own v
      | None \<Rightarrow> if key \<in> proto_members then Inherited key else Missing)"

subsection \<open>Values\<close>

text \<open>
  \<^verbatim>\<open>osx.layer.Preset\<close>: only the \<^verbatim>\<open>default\<close> flag is read by this file
  (\<^verbatim>\<open>preset.default || false\<close>); \<open>None\<close> is a record without the property.
\<close>

record preset =
  preset_id :: string
  preset_label :: string
  preset_default :: "bool option"
  layerOptions :: "(string \<times> string) list"

text \<open>
  What a promise of the manager can be fulfilled with. By its type,
  \<^verbatim>\<open>goog.Promise<Array<osx.layer.Preset>>\<close>, that is an array of presets or \<^verbatim>\<open>null\<close>;
  \<^verbatim>\<open>undefined\<close> is what \<^verbatim>\<open>handleLoadError\<close> returns. \<^verbatim>\<open>initPreset\<close> can also
  read a member of \<^verbatim>\<open>Object.prototype\<close> in place of a stored list (\<open>Member\<close>), and
  \<^verbatim>\<open>concat\<close> puts such a member into an array as one element (\<open>Proto\<close>).
\<close>

datatype item = Item preset | Proto string

datatype pval = Undefined | Null | Arr "item list" | Member string

text \<open>
  A rejection reason or thrown value, as \<^verbatim>\<open>handleLoadError\<close> tells them apart:
  a string, an \<^verbatim>\<open>Error\<close> object (with its message), or anything else.
\<close>

datatype reason = RString string | RError string | ROther

text \<open>
  What a method of the manager throws to its caller: the \<^verbatim>\<open>TypeError\<close> of calling
  \<^verbatim>\<open>then\<close> on an inherited member, which has no such method (line 66), or what
  \<^verbatim>\<open>os.layer.preset.addDefault\<close> throws.
\<close>

datatype error = TypeError | Thrown reason

text \<open>
  Lines 70-72 for an array \<^verbatim>\<open>presets\<close>:
  \<^verbatim>\<open>if (presets && originalPresets) presets = presets.concat(originalPresets)\<close>.
  \<^verbatim>\<open>concat\<close> appends the elements of an array and appends any other value as one
  element; nothing is appended when \<^verbatim>\<open>originalPresets\<close> is falsy.
\<close>

fun concat_presets :: "item list \<Rightarrow> pval \<Rightarrow> pval" where
  "concat_presets xs (Arr os) = Arr (xs @ os)"
| "concat_presets xs (Member m) = Arr (xs @ [Proto m])"
| "concat_presets xs Null = Arr xs"
| "concat_presets xs Undefined = Arr xs"

subsection \<open>Promises, callbacks and the state\<close>

text \<open>
  The closures of the source are represented by their captured variables. The only
  callback ever attached to a promise held in \<^verbatim>\<open>presets_\<close> is the outer function of
  lines 66-78 (with \<^verbatim>\<open>this.handleLoadError\<close> as its rejection handler); the entry
  records its \<^verbatim>\<open>type\<close>, the \<^verbatim>\<open>url\<close> of its \<^verbatim>\<open>request\<close>, and the child promise
  \<^verbatim>\<open>then\<close> returns. Promises are numbered in the order of their creation.
\<close>

type_synonym outer_entry = "string \<times> string \<times> nat"

datatype promise = Pending "outer_entry list" | Fulfilled pval | Rejected reason

text \<open>
  \<^verbatim>\<open>request.getPromise().then(f, this.handleLoadError, this)\<close>: \<open>ThenParse c\<close> is the
  function of lines 81-84 with child promise \<open>c\<close>; \<open>ThenMerge type originalPresets
  newPromise\<close> is the function of lines 67-77.
\<close>

datatype request_then = ThenParse nat | ThenMerge string pval nat

record request =
  req_url :: string
  req_then :: request_then
  req_done :: bool

text \<open>
  A call of \<^verbatim>\<open>ImportActionManager.getInstance().loadDefaults(id)\<close> with the
  \<^verbatim>\<open>thenAlways\<close> callback of lines 152-158: its \<^verbatim>\<open>id\<close>, \<^verbatim>\<open>opt_applyDefault\<close>,
  \<^verbatim>\<open>layerPresets\<close> and the promise whose \<^verbatim>\<open>resolve\<close> it calls.
\<close>

record load =
  load_id :: string
  load_apply :: bool
  load_presets :: pval
  load_promise :: nat
  load_done :: bool

text \<open>
  A callback scheduled to run (goog.Promise runs every callback asynchronously, through
  \<^verbatim>\<open>goog.async.run\<close>), with the settled result of the promise it was attached to:
  \<open>Inl\<close> a rejection, \<open>Inr\<close> a fulfilment.
\<close>

datatype task =
    RunParse nat "reason + string"
  | RunMergeInner string pval nat "reason + string"
  | RunMergeOuter string string nat "reason + pval"
  | RunInit string bool pval nat

text \<open>
  \<open>presets_map\<close> and \<open>requested_set\<close> are the own properties of \<^verbatim>\<open>presets_\<close> and
  \<^verbatim>\<open>requested_\<close> (a name cannot end in an underscore here); \<^verbatim>\<open>requested_\<close> only
  ever gets own properties with the value \<^verbatim>\<open>true\<close>, so it is the set of their names.
\<close>

record state =
  presets_map :: "string \<rightharpoonup> nat"
  presets_proto_replaced :: bool
  requested_set :: "string set"
  promises :: "promise list"
  microtasks :: "task list"
  requests :: "request list"
  loads :: "load list"
  errors_logged :: "string list"
  constructed :: "(string \<times> nat) list"
  PRESETS :: "string \<rightharpoonup> preset list"
  APPLIED_DEFAULTS :: "string \<rightharpoonup> bool"
  settings_writes :: "(string \<rightharpoonup> bool) list"
  executed :: "(string \<times> preset) list"

text \<open>
  \<open>errors_logged\<close> are the messages given to \<^verbatim>\<open>goog.log.error\<close>; \<open>PRESETS\<close> and
  \<open>APPLIED_DEFAULTS\<close> are the own properties of the settings values under the two
  \<^verbatim>\<open>os.layer.preset.SettingKey\<close>s (an absent key reads as the empty object, the default
  given to \<^verbatim>\<open>os.settings.get\<close>); \<open>settings_writes\<close> lists the values passed to
  \<^verbatim>\<open>os.settings.set\<close>; \<open>executed\<close> lists the \<^verbatim>\<open>VectorLayerPreset\<close> commands executed;
  \<open>constructed\<close> is a history variable: the promises the manager has constructed as
  cache values, each with the key it was constructed for, oldest first.
\<close>

text \<open>
  \<^verbatim>\<open>this.presets_[key] = promise\<close>. Under every name but \<^verbatim>\<open>__proto__\<close> the assignment
  creates or overwrites an own property. Under \<^verbatim>\<open>__proto__\<close> it makes the promise the
  prototype of \<^verbatim>\<open>presets_\<close>; a read of \<^verbatim>\<open>presets_['__proto__']\<close> then gives that
  promise, as the read of an own property would, and the map records it in the same way.
  From then on \<^verbatim>\<open>presets_\<close> also inherits the members of the promise, whose names
  depend on goog.Promise: \<open>presets_proto_replaced\<close> records that this has happened, and
  what is proved below of a key that has no own property is stated for states in which
  it has not. Only a direct call of \<^verbatim>\<open>initPreset\<close> with that id makes the first such
  assignment: \<^verbatim>\<open>registerPreset\<close> and \<^verbatim>\<open>getPresets\<close> assign to a new key only after a
  falsy read of it.
\<close>

definition set_preset :: "string \<Rightarrow> nat \<Rightarrow> state \<Rightarrow> state" where
  "set_preset key p s =
     s\<lparr>presets_map := (presets_map s)(key \<mapsto> p),
       presets_proto_replaced := (presets_proto_replaced s \<or> key = ''__proto__'')\<rparr>"

text \<open>\<^verbatim>\<open>this.requested_[url]\<close> as a condition.\<close>

definition requested :: "state \<Rightarrow> string \<Rightarrow> bool" where
  "requested s url = (url \<in> requested_set s \<or> url \<in> proto_members)"

subsection \<open>handleLoadError (lines 95-104)\<close>

definition handleLoadError :: "reason \<Rightarrow> state \<Rightarrow> (reason + pval) \<times> state" where
  "handleLoadError reason s =
     (let msg = (case reason of
                   RString str \<Rightarrow> str
                 | RError message \<Rightarrow> message
                 | ROther \<Rightarrow> ''Unspecified error.'')
      in (Inr Undefined,
          s\<lparr>errors_logged := errors_logged s @ [''Failed to load presets. Reason: '' @ msg]\<rparr>))"

subsection \<open>applyDefaults (lines 172-189)\<close>

text \<open>
  \<^verbatim>\<open>applied[id]\<close> as a condition: an own property counts with its value, an inherited
  member is truthy.
\<close>

definition applied_truthy :: "(string \<rightharpoonup> bool) \<Rightarrow> string \<Rightarrow> bool" where
  "applied_truthy applied ident =
     (case get_prop applied ident of Own b \<Rightarrow> b | Inherited m \<Rightarrow> True | Missing \<Rightarrow> False)"

text \<open>
  The callback of \<^verbatim>\<open>find\<close>, \<^verbatim>\<open>preset.default || false\<close>: no member of
  \<^verbatim>\<open>Object.prototype\<close> has a property \<^verbatim>\<open>default\<close>.
\<close>

fun is_default :: "item \<Rightarrow> bool" where
  "is_default (Item p) = (preset_default p = Some True)"
| "is_default (Proto m) = False"

text \<open>
  \<^verbatim>\<open>Array.isArray(presets) && presets.length\<close> holds of a non-empty array only.
  \<^verbatim>\<open>cmd.execute()\<close> is recorded in \<open>executed\<close>. The assignment
  \<^verbatim>\<open>applied[id] = true\<close> is made only after a falsy read of \<^verbatim>\<open>applied[id]\<close>, so it
  creates or overwrites an own property.
\<close>

definition applyDefaults :: "string \<Rightarrow> pval \<Rightarrow> state \<Rightarrow> state" where
  "applyDefaults ident presets s =
     (let applied = APPLIED_DEFAULTS s in
      case presets of
        Arr xs \<Rightarrow>
          if xs \<noteq> [] \<and> \<not> applied_truthy applied ident then
            (let s1 = (case find is_default xs of
                         Some (Item p) \<Rightarrow> s\<lparr>executed := executed s @ [(ident, p)]\<rparr>
                       | _ \<Rightarrow> s);
                 applied' = applied(ident \<mapsto> True)
             in s1\<lparr>APPLIED_DEFAULTS := applied',
                   settings_writes := settings_writes s1 @ [applied']\<rparr>)
          else s
      | _ \<Rightarrow> s)"

subsection \<open>Collaborators outside the file\<close>

text \<open>
  \<open>JSON_parse\<close> is \<^verbatim>\<open>JSON.parse\<close> followed by the cast of the source to
  \<^verbatim>\<open>Array<osx.layer.Preset>\<close>: \<open>Inl\<close> is the value it throws, \<open>Inr None\<close> is
  \<^verbatim>\<open>null\<close>, \<open>Inr (Some ps)\<close> an array. \<open>getLayer\<close> is
  \<^verbatim>\<open>os.map.mapContainer.getLayer\<close>; \<open>getFilterKey\<close> of a layer is \<open>None\<close> when
  the method returns \<^verbatim>\<open>null\<close>. \<open>restore_record\<close> is the record that
  \<^verbatim>\<open>os.layer.preset.addDefault\<close> adds to an array; \<open>addDefault_throws\<close> is what that
  function throws, if anything, when it is given the member of \<^verbatim>\<open>Object.prototype\<close> of
  that name in place of an array.
\<close>

record layer =
  filterable :: bool
  getFilterKey :: "string option"

record env =
  JSON_parse :: "string \<Rightarrow> reason + preset list option"
  getLayer :: "string \<Rightarrow> layer option"
  restore_record :: preset
  addDefault_throws :: "string \<Rightarrow> reason option"

text \<open>The value of a parsed text.\<close>

fun parsed_value :: "preset list option \<Rightarrow> pval" where
  "parsed_value None = Null"
| "parsed_value (Some ps) = Arr (map Item ps)"

text \<open>
  Modelled from the spec: \<^verbatim>\<open>os.layer.preset.addDefault\<close> is not part of the file; the
  specification says that it appends a synthetic "restore to default" record to the list.
\<close>

definition addDefault :: "env \<Rightarrow> item list \<Rightarrow> item list" where
  "addDefault env presets = presets @ [Item (restore_record env)]"

subsection \<open>goog.Promise: settling and \<^verbatim>\<open>then\<close>\<close>

text \<open>
  Resolving or rejecting promise \<open>p\<close>: a promise that is no longer pending ignores it;
  otherwise the state is recorded and every attached callback is scheduled with the
  result. (goog.Promise reports a rejection that no callback handles to its global
  handler, outside the manager; that report is not part of the state.)
\<close>

definition settle :: "nat \<Rightarrow> reason + pval \<Rightarrow> state \<Rightarrow> state" where
  "settle p res s =
     (if p < length (promises s) then
        (case promises s ! p of
           Pending es \<Rightarrow>
             s\<lparr>promises := (promises s)[p := (case res of Inl r \<Rightarrow> Rejected r | Inr v \<Rightarrow> Fulfilled v)],
               microtasks := microtasks s @ map (\<lambda>(t, u, c). RunMergeOuter t u c res) es\<rparr>
         | Fulfilled v \<Rightarrow> s
         | Rejected r \<Rightarrow> s)
      else s)"

text \<open>
  \<^verbatim>\<open>promise.then(function(originalPresets) {...}, this.handleLoadError, this)\<close> of lines
  66-78 on the cached promise \<open>p\<close>: a child promise is created; the callback is attached
  when \<open>p\<close> is pending and scheduled at once when \<open>p\<close> is settled. (In every
  state a manager can reach a cache entry names a created promise, lemma
  \<open>cache_created_reachable\<close>; for an index out of range nothing is attached.)
\<close>

definition then_outer :: "nat \<Rightarrow> string \<Rightarrow> string \<Rightarrow> state \<Rightarrow> state" where
  "then_outer p type url s =
     (let c = length (promises s);
          s1 = s\<lparr>promises := promises s @ [Pending []]\<rparr>
      in if p < length (promises s) then
           (case promises s ! p of
              Pending es \<Rightarrow> s1\<lparr>promises := (promises s1)[p := Pending (es @ [(type, url, c)])]\<rparr>
            | Fulfilled v \<Rightarrow> s1\<lparr>microtasks := microtasks s1 @ [RunMergeOuter type url c (Inr v)]\<rparr>
            | Rejected r \<Rightarrow> s1\<lparr>microtasks := microtasks s1 @ [RunMergeOuter type url c (Inl r)]\<rparr>)
         else s1)"

subsection \<open>registerPreset (lines 57-87)\<close>

text \<open>
  \<^verbatim>\<open>request.getPromise()\<close> issues the fetch; it is called at once in the branch without a
  cached promise (line 81) and inside the outer callback in the other branch (line 67).
  When \<^verbatim>\<open>this.presets_[type]\<close> is an inherited member, the condition of line 64 holds
  and \<^verbatim>\<open>promise.then\<close> is not a function: the call of line 66 throws, after line 61 has
  marked the URL and before any fetch. The function returns what it throws, if it does,
  and the state it leaves.
\<close>

definition registerPreset :: "string \<Rightarrow> string \<Rightarrow> state \<Rightarrow> error option \<times> state" where
  "registerPreset type url s =
     (let promise = get_prop (presets_map s) type in
      if \<not> requested s url then
        (let s1 = s\<lparr>requested_set := insert url (requested_set s)\<rparr> in
         case promise of
           Own p \<Rightarrow> (None, then_outer p type url s1)
         | Inherited m \<Rightarrow> (Some TypeError, s1)
         | Missing \<Rightarrow>
             (let c = length (promises s1) in
              (None,
               set_preset type c
                 (s1\<lparr>promises := promises s1 @ [Pending []],
                     requests := requests s1 @
                       [\<lparr>req_url = url, req_then = ThenParse c, req_done = False\<rparr>],
                     constructed := constructed s1 @ [(type, c)]\<rparr>))))
      else (None, s))"

text \<open>The fulfilment callback of lines 81-84.\<close>

definition parse_callback :: "env \<Rightarrow> string \<Rightarrow> state \<Rightarrow> (reason + pval) \<times> state" where
  "parse_callback env result s =
     (case JSON_parse env result of
        Inl e \<Rightarrow> (Inl e, s)
      | Inr presets \<Rightarrow> (Inr (parsed_value presets), s))"

text \<open>The outer callback of lines 66-78; it returns nothing.\<close>

definition merge_outer :: "string \<Rightarrow> string \<Rightarrow> pval \<Rightarrow> state \<Rightarrow> (reason + pval) \<times> state" where
  "merge_outer type url originalPresets s =
     (let newPromise = length (promises s) in
      (Inr Undefined,
       s\<lparr>promises := promises s @ [Pending []],
         requests := requests s @
           [\<lparr>req_url = url, req_then = ThenMerge type originalPresets newPromise,
             req_done = False\<rparr>],
         constructed := constructed s @ [(type, newPromise)]\<rparr>))"

text \<open>The inner callback of lines 67-77.\<close>

definition merge_inner ::
  "env \<Rightarrow> string \<Rightarrow> pval \<Rightarrow> nat \<Rightarrow> string \<Rightarrow> state \<Rightarrow> (reason + pval) \<times> state" where
  "merge_inner env type originalPresets newPromise result s =
     (case JSON_parse env result of
        Inl e \<Rightarrow> (Inl e, s)
      | Inr None \<Rightarrow> (Inr Null, set_preset type newPromise s)
      | Inr (Some ps) \<Rightarrow>
          (Inr (concat_presets (map Item ps) originalPresets), set_preset type newPromise s))"

subsection \<open>initPreset (lines 131-162) and getPresets (lines 114-120)\<close>

text \<open>
  The property name that \<^verbatim>\<open>presets[filterKey]\<close> reads (line 141): \<^verbatim>\<open>filterKey\<close> is
  \<^verbatim>\<open>undefined\<close> when there is no layer for the id or the layer is not filterable, and
  \<^verbatim>\<open>null\<close> when the layer has no key; as a property name these are the strings
  \<^verbatim>\<open>undefined\<close> and \<^verbatim>\<open>null\<close>.
\<close>

definition filter_name :: "env \<Rightarrow> string \<Rightarrow> string" where
  "filter_name env ident =
     (case getLayer env ident of
        Some l \<Rightarrow>
          if filterable l then (case getFilterKey l of Some k \<Rightarrow> k | None \<Rightarrow> ''null'')
          else ''undefined''
      | None \<Rightarrow> ''undefined'')"

text \<open>
  Lines 139-147: \<^verbatim>\<open>presets[filterKey] || []\<close>, and \<^verbatim>\<open>addDefault\<close> when the
  \<^verbatim>\<open>length\<close> of what was read is truthy. \<^verbatim>\<open>addDefault\<close> changes the array it is
  given; the model leaves the stored list as it is.
\<close>

definition layerPresets_of :: "env \<Rightarrow> string \<Rightarrow> state \<Rightarrow> error + pval" where
  "layerPresets_of env ident s =
     (case get_prop (PRESETS s) (filter_name env ident) of
        Own ps \<Rightarrow> Inr (Arr (if ps \<noteq> [] then addDefault env (map Item ps) else []))
      | Inherited m \<Rightarrow>
          if member_length m \<noteq> 0 then
            (case addDefault_throws env m of Some r \<Rightarrow> Inl (Thrown r) | None \<Rightarrow> Inr (Member m))
          else Inr (Member m)
      | Missing \<Rightarrow> Inr (Arr []))"

text \<open>
  The executor of the new promise runs at once: line 151 asks the loader and line 152
  attaches the callback; line 161 stores the promise.
\<close>

definition initPreset :: "env \<Rightarrow> string \<Rightarrow> bool \<Rightarrow> state \<Rightarrow> error option \<times> state" where
  "initPreset env ident opt_applyDefault s =
     (case layerPresets_of env ident s of
        Inl e \<Rightarrow> (Some e, s)
      | Inr layerPresets \<Rightarrow>
          (let promise = length (promises s) in
           (None,
            set_preset ident promise
              (s\<lparr>promises := promises s @ [Pending []],
                 loads := loads s @
                   [\<lparr>load_id = ident, load_apply = opt_applyDefault,
                     load_presets = layerPresets, load_promise = promise,
                     load_done = False\<rparr>],
                 constructed := constructed s @ [(ident, promise)]\<rparr>))))"

text \<open>
  \<^verbatim>\<open>getPresets\<close> returns \<^verbatim>\<open>this.presets_[id]\<close>: a promise, or an inherited member
  (which is truthy, so that \<^verbatim>\<open>initPreset\<close> is not called), or what \<^verbatim>\<open>initPreset\<close>
  throws.
\<close>

definition getPresets ::
  "env \<Rightarrow> string \<Rightarrow> bool \<Rightarrow> state \<Rightarrow> (error + nat lookup) \<times> state" where
  "getPresets env ident opt_applyDefault s =
     (case get_prop (presets_map s) ident of
        Missing \<Rightarrow>
          (case initPreset env ident opt_applyDefault s of
             (Some e, s1) \<Rightarrow> (Inl e, s1)
           | (None, s1) \<Rightarrow> (Inr (get_prop (presets_map s1) ident), s1))
      | found \<Rightarrow> (Inr found, s))"

subsection \<open>Running callbacks\<close>

text \<open>
  A \<^verbatim>\<open>then\<close> callback runs on the settled result of its parent: the fulfilment function
  on a value, \<^verbatim>\<open>handleLoadError\<close> on a rejection. What it returns fulfils the child
  promise, what it throws rejects it. The \<^verbatim>\<open>thenAlways\<close> callback of \<^verbatim>\<open>initPreset\<close>
  takes no argument and resolves its promise itself.
\<close>

fun run_task :: "env \<Rightarrow> task \<Rightarrow> state \<Rightarrow> state" where
  "run_task env (RunParse c (Inr result)) s =
     (let (res, s1) = parse_callback env result s in settle c res s1)"
| "run_task env (RunParse c (Inl r)) s =
     (let (res, s1) = handleLoadError r s in settle c res s1)"
| "run_task env (RunMergeInner type orig np (Inr result)) s =
     (let (res, s1) = merge_inner env type orig np result s in settle np res s1)"
| "run_task env (RunMergeInner type orig np (Inl r)) s =
     (let (res, s1) = handleLoadError r s in settle np res s1)"
| "run_task env (RunMergeOuter type url c (Inr orig)) s =
     (let (res, s1) = merge_outer type url orig s in settle c res s1)"
| "run_task env (RunMergeOuter type url c (Inl r)) s =
     (let (res, s1) = handleLoadError r s in settle c res s1)"
| "run_task env (RunInit ident ap layerPresets p) s =
     settle p (Inr layerPresets) (if ap then applyDefaults ident layerPresets s else s)"

subsection \<open>Events\<close>

text \<open>
  What can happen to a manager: a call of one of its methods, the network answering
  request number \<open>i\<close> (\<open>Inr\<close> the text, \<open>Inl\<close> a failure), the feature-action loader's
  promise of load number \<open>j\<close> settling (fulfilled or rejected, \<^verbatim>\<open>thenAlways\<close> does not
  tell them apart), and a scheduled callback running. \<open>RunTask i\<close> runs the callback at
  position \<open>i\<close> of the queue, so every order of running callbacks is covered. A method
  that throws leaves the state it had reached.
\<close>

datatype event =
    RegisterPreset string string
  | GetPresets string bool
  | InitPreset string bool
  | ApplyDefaults string pval
  | Response nat "reason + string"
  | LoadSettled nat bool
  | RunTask nat

fun step :: "env \<Rightarrow> state \<Rightarrow> event \<Rightarrow> state" where
  "step env s (RegisterPreset type url) = snd (registerPreset type url s)"
| "step env s (GetPresets ident ap) = snd (getPresets env ident ap s)"
| "step env s (InitPreset ident ap) = snd (initPreset env ident ap s)"
| "step env s (ApplyDefaults ident presets) = applyDefaults ident presets s"
| "step env s (Response i res) =
     (if i < length (requests s) \<and> \<not> req_done (requests s ! i) then
        s\<lparr>requests := (requests s)[i := (requests s ! i)\<lparr>req_done := True\<rparr>],
          microtasks := microtasks s @
            [case req_then (requests s ! i) of
               ThenParse c \<Rightarrow> RunParse c res
             | ThenMerge type orig np \<Rightarrow> RunMergeInner type orig np res]\<rparr>
      else s)"
| "step env s (LoadSettled j ok) =
     (if j < length (loads s) \<and> \<not> load_done (loads s ! j) then
        (let l = loads s ! j in
         s\<lparr>loads := (loads s)[j := l\<lparr>load_done := True\<rparr>],
           microtasks := microtasks s @
             [RunInit (load_id l) (load_apply l) (load_presets l) (load_promise l)]\<rparr>)
      else s)"
| "step env s (RunTask i) =
     (if i < length (microtasks s) then
        run_task env (microtasks s ! i)
          (s\<lparr>microtasks := take i (microtasks s) @ drop (Suc i) (microtasks s)\<rparr>)
      else s)"

definition run :: "env \<Rightarrow> state \<Rightarrow> event list \<Rightarrow> state" where
  "run env s evs = foldl (step env) s evs"

text \<open>
  The state of a new manager (lines 22-38), over the settings store as it is found.
\<close>

definition init :: "(string \<rightharpoonup> preset list) \<Rightarrow> (string \<rightharpoonup> bool) \<Rightarrow> state" where
  "init stored applied =
     \<lparr>presets_map = Map.empty, presets_proto_replaced = False, requested_set = {},
      promises = [], microtasks = [], requests = [], loads = [], errors_logged = [],
      constructed = [], PRESETS = stored, APPLIED_DEFAULTS = applied, settings_writes = [],
      executed = []\<rparr>"

subsection \<open>Running the queue until it is empty\<close>

definition pending_entries :: "promise \<Rightarrow> nat" where
  "pending_entries p = (case p of Pending es \<Rightarrow> length es | _ \<Rightarrow> 0)"

definition work :: "state \<Rightarrow> nat" where
  "work s = length (microtasks s) + sum_list (map pending_entries (promises s))"

text \<open>
  \<open>work\<close> counts the callbacks that are scheduled or attached to a pending promise. No
  callback of this file attaches a callback to a promise of the manager, so running one
  lowers \<open>work\<close> by one and the queue runs empty.
\<close>

function drain :: "env \<Rightarrow> state \<Rightarrow> state" where
  "drain env s =
     (case microtasks s of
        [] \<Rightarrow> s
      | t # q \<Rightarrow> drain env (run_task env t (s\<lparr>microtasks := q\<rparr>)))"
  by pat_completeness auto

subsection \<open>Concrete inputs for the examples\<close>

text \<open>
  A preset with a name and a \<^verbatim>\<open>default\<close> flag; a parser that knows two texts and
  rejects every other one; a layer registry with one filterable layer.
\<close>

definition example_preset :: "string \<Rightarrow> bool option \<Rightarrow> preset" where
  "example_preset n d =
     \<lparr>preset_id = n, preset_label = n, preset_default = d, layerOptions = []\<rparr>"

definition example_env :: env where
  "example_env =
     \<lparr>JSON_parse = (\<lambda>text.
        if text = ''[a]'' then Inr (Some [example_preset ''a'' (Some False)])
        else if text = ''[b]'' then Inr (Some [example_preset ''b'' (Some True)])
        else Inl (RError ''Unexpected token'')),
      getLayer = (\<lambda>ident.
        if ident = ''layer1'' then Some \<lparr>filterable = True, getFilterKey = Some ''key1''\<rparr>
        else None),
      restore_record = example_preset ''restore'' None,
      addDefault_throws = (\<lambda>m. None)\<rparr>"

section \<open>Observations used by the properties\<close>

text \<open>The commands executed so far for one layer id.\<close>

definition commands_for :: "string \<Rightarrow> state \<Rightarrow> (string \<times> preset) list" where
  "commands_for ident s = filter (\<lambda>c. fst c = ident) (executed s)"

text \<open>
  The number of network fetches issued so far for one URL, and the callbacks that could
  still issue one: the outer callbacks of \<^verbatim>\<open>registerPreset\<close> for that URL that are
  scheduled or attached to a pending promise.
\<close>

definition fetches :: "string \<Rightarrow> state \<Rightarrow> nat" where
  "fetches url s = count_list (map req_url (requests s)) url"

definition task_for :: "string \<Rightarrow> task \<Rightarrow> bool" where
  "task_for url t = (case t of RunMergeOuter ty u c res \<Rightarrow> u = url | _ \<Rightarrow> False)"

definition entries_for :: "string \<Rightarrow> promise \<Rightarrow> nat" where
  "entries_for url p =
     (case p of Pending es \<Rightarrow> length (filter (\<lambda>e. fst (snd e) = url) es) | _ \<Rightarrow> 0)"

definition outstanding :: "string \<Rightarrow> state \<Rightarrow> nat" where
  "outstanding url s =
     length (filter (task_for url) (microtasks s)) +
     sum_list (map (entries_for url) (promises s))"

definition fetch_budget :: "string \<Rightarrow> state \<Rightarrow> bool" where
  "fetch_budget url s =
     (fetches url s + outstanding url s \<le> (if requested s url then 1 else 0))"

text \<open>
  One turn of the event loop: an event, then the scheduled callbacks run until none is
  left.
\<close>

definition turn :: "env \<Rightarrow> state \<Rightarrow> event \<Rightarrow> state" where
  "turn env s e = drain env (step env s e)"

text \<open>
  What the promise stored under a key (an own property of \<^verbatim>\<open>presets_\<close>) is fulfilled
  with, if it is.
\<close>

definition resolved_presets :: "string \<Rightarrow> state \<Rightarrow> pval option" where
  "resolved_presets key s =
     (case presets_map s key of
        None \<Rightarrow> None
      | Some p \<Rightarrow>
          if p < length (promises s) then
            (case promises s ! p of Fulfilled v \<Rightarrow> Some v | _ \<Rightarrow> None)
          else None)"

text \<open>The promise most recently constructed for a key.\<close>

definition latest_constructed :: "string \<Rightarrow> state \<Rightarrow> nat option" where
  "latest_constructed key s =
     (case filter (\<lambda>c. fst c = key) (rev (constructed s)) of
        [] \<Rightarrow> None
      | c # cs \<Rightarrow> Some (snd c))"

text \<open>
  A scheduled outer callback of \<^verbatim>\<open>registerPreset\<close>, and one that is scheduled with
  a fulfilment.
\<close>

definition outer_task :: "task \<Rightarrow> bool" where
  "outer_task t = (case t of RunMergeOuter ty u c res \<Rightarrow> True | _ \<Rightarrow> False)"

definition quiet_task :: "task \<Rightarrow> bool" where
  "quiet_task t = (case t of RunMergeOuter ty u c (Inr v) \<Rightarrow> True | _ \<Rightarrow> False)"

text \<open>Every promise fulfilled in the first state is fulfilled with the same value in the second.\<close>

definition keeps_fulfilled :: "state \<Rightarrow> state \<Rightarrow> bool" where
  "keeps_fulfilled s s' =
     (\<forall>p v. p < length (promises s) \<and> promises s ! p = Fulfilled v \<longrightarrow>
        p < length (promises s') \<and> promises s' ! p = Fulfilled v)"

text \<open>The line \<^verbatim>\<open>handleLoadError\<close> logs for a reason.\<close>

definition error_line :: "reason \<Rightarrow> string" where
  "error_line r =
     ''Failed to load presets. Reason: '' @
       (case r of RString str \<Rightarrow> str | RError message \<Rightarrow> message
        | ROther \<Rightarrow> ''Unspecified error.'')"

text \<open>
  The example state in which the type \<open>t1\<close> has been registered from \<open>u1\<close> and the
  fetch has returned the text \<open>[a]\<close>.
\<close>

definition after_first_fetch :: state where
  "after_first_fetch =
     foldl (turn example_env) (init Map.empty Map.empty)
       [RegisterPreset ''t1'' ''u1'', Response 0 (Inr ''[a]'')]"

text \<open>
  The example states in which the type \<open>t1\<close> has been registered from \<open>u1\<close> and the
  fetch is pending, and in which it has then been registered from \<open>u2\<close> after the first
  fetch has returned.
\<close>

definition first_fetch_pending :: state where
  "first_fetch_pending = turn example_env (init Map.empty Map.empty) (RegisterPreset ''t1'' ''u1'')"

definition second_fetch_pending :: state where
  "second_fetch_pending = turn example_env after_first_fetch (RegisterPreset ''t1'' ''u2'')"

text \<open>
  The promise a scheduled callback, a request's callback, a callback attached to a
  pending promise or a load's callback will settle.
\<close>

fun task_target :: "task \<Rightarrow> nat" where
  "task_target (RunParse c res) = c"
| "task_target (RunMergeInner ty orig np res) = np"
| "task_target (RunMergeOuter ty url c res) = c"
| "task_target (RunInit ident ap ps p) = p"

fun then_target :: "request_then \<Rightarrow> nat" where
  "then_target (ThenParse c) = c"
| "then_target (ThenMerge ty orig np) = np"

definition promise_targets :: "promise \<Rightarrow> nat set" where
  "promise_targets pr = (case pr of Pending es \<Rightarrow> (\<lambda>e. snd (snd e)) ` set es | _ \<Rightarrow> {})"

definition entry_targets :: "state \<Rightarrow> nat set" where
  "entry_targets s = \<Union> (promise_targets ` set (promises s))"

definition queue_targets :: "state \<Rightarrow> nat set" where
  "queue_targets s = task_target ` set (microtasks s)"

definition request_targets :: "state \<Rightarrow> nat set" where
  "request_targets s = (\<lambda>r. then_target (req_then r)) ` set (requests s)"

text \<open>The promises of the loads, but for the load with the number given.\<close>

definition load_targets :: "nat option \<Rightarrow> state \<Rightarrow> nat set" where
  "load_targets jo s =
     {load_promise (loads s ! k) | k. k < length (loads s) \<and> Some k \<noteq> jo}"

definition targets_but :: "nat option \<Rightarrow> state \<Rightarrow> nat set" where
  "targets_but jo s = queue_targets s \<union> request_targets s \<union> entry_targets s \<union> load_targets jo s"

text \<open>Every callback settles a promise that exists.\<close>

definition well_numbered :: "state \<Rightarrow> bool" where
  "well_numbered s = (\<forall>c \<in> targets_but None s. c < length (promises s))"

text \<open>An event other than the settling of the load with the number given.\<close>

definition skips :: "nat option \<Rightarrow> event \<Rightarrow> bool" where
  "skips jo e = (case e of LoadSettled k ok \<Rightarrow> Some k \<noteq> jo | _ \<Rightarrow> True)"

text \<open>
  Promise \<open>p\<close> is pending and only load number \<open>j\<close>, which has not settled, will
  resolve it.
\<close>

definition waiting :: "nat \<Rightarrow> nat \<Rightarrow> load \<Rightarrow> state \<Rightarrow> bool" where
  "waiting p j l s =
     (p < length (promises s) \<and> (\<exists>es. promises s ! p = Pending es) \<and>
      j < length (loads s) \<and> loads s ! j = l \<and> p \<notin> targets_but (Some j) s)"

text \<open>
  Promise \<open>p\<close> is fulfilled with the value \<open>L\<close>, or it is pending, a callback of
  \<open>initPreset\<close> that resolves it with \<open>L\<close> is scheduled, and nothing else will settle it.
\<close>

definition scheduled :: "nat \<Rightarrow> pval \<Rightarrow> state \<Rightarrow> bool" where
  "scheduled p L s =
     (p < length (promises s) \<and>
      (promises s ! p = Fulfilled L \<or>
       ((\<exists>es. promises s ! p = Pending es) \<and>
        (\<exists>i a. RunInit i a L p \<in> set (microtasks s)) \<and>
        (\<forall>t \<in> set (microtasks s). task_target t = p \<longrightarrow> (\<exists>i a. t = RunInit i a L p)) \<and>
        p \<notin> entry_targets s)))"

text \<open>Every cache entry names a promise that exists.\<close>

definition cache_created :: "state \<Rightarrow> bool" where
  "cache_created s = (\<forall>k p. presets_map s k = Some p \<longrightarrow> p < length (promises s))"

section \<open>Termination of the queue\<close>

lemma sum_list_pending_update:
  "p < length ps \<Longrightarrow> pending_entries q = 0 \<Longrightarrow>
   sum_list (map pending_entries (ps[p := q])) + pending_entries (ps ! p) = sum_list (map pending_entries ps)"
proof (induction ps arbitrary: p)
  case Nil
  then show ?case by simp
next
  case (Cons a ps)
  then show ?case by (cases p) auto
qed

lemma work_settle: "work (settle p res s) = work s"
proof (cases "p < length (promises s)")
  case False
  then show ?thesis by (simp add: settle_def)
next
  case True
  show ?thesis
  proof (cases "promises s ! p")
    case (Pending es)
    have "pending_entries (case res of Inl r \<Rightarrow> Rejected r | Inr v \<Rightarrow> Fulfilled v) = 0"
      by (simp add: pending_entries_def split: sum.splits)
    from sum_list_pending_update[OF True this] Pending True show ?thesis
      by (simp add: settle_def work_def pending_entries_def)
  next
    case (Fulfilled v)
    with True show ?thesis by (simp add: settle_def)
  next
    case (Rejected r)
    with True show ?thesis by (simp add: settle_def)
  qed
qed

lemma work_handleLoadError: "work (snd (handleLoadError r s)) = work s"
  by (simp add: handleLoadError_def work_def Let_def)

lemma work_parse_callback: "work (snd (parse_callback env result s)) = work s"
  by (simp add: parse_callback_def split: sum.splits)

lemma work_merge_inner: "work (snd (merge_inner env ty orig np result s)) = work s"
  by (simp add: merge_inner_def set_preset_def work_def Let_def split: sum.splits option.splits)

lemma work_merge_outer: "work (snd (merge_outer ty url orig s)) = work s"
  by (simp add: merge_outer_def work_def Let_def pending_entries_def)

lemma work_applyDefaults: "work (applyDefaults i ps s) = work s"
  by (simp add: applyDefaults_def work_def Let_def split: pval.splits option.splits item.splits)

lemma work_run_task: "work (run_task env t s) = work s"
proof (cases t)
  case (RunParse c res)
  then show ?thesis
    by (cases res)
      (simp_all add: split_def Let_def work_settle work_parse_callback work_handleLoadError)
next
  case (RunMergeInner ty orig np res)
  then show ?thesis
    by (cases res)
      (simp_all add: split_def Let_def work_settle work_merge_inner work_handleLoadError)
next
  case (RunMergeOuter ty url c res)
  then show ?thesis
    by (cases res)
      (simp_all add: split_def Let_def work_settle work_merge_outer work_handleLoadError)
next
  case (RunInit i ap ps p)
  then show ?thesis
    by (simp add: work_settle work_applyDefaults)
qed

termination drain
proof (relation "measure (\<lambda>(env, s). work s)")
  show "wf (measure (\<lambda>(env, s). work s))" by simp
next
  fix env :: env and s :: state and t q
  assume "microtasks s = t # q"
  then have "work (s\<lparr>microtasks := q\<rparr>) < work s" by (simp add: work_def)
  then show "((env, run_task env t (s\<lparr>microtasks := q\<rparr>)), (env, s)) \<in> measure (\<lambda>(env, s). work s)"
    by (simp add: work_run_task)
qed

declare drain.simps [simp del]

lemma drain_Nil: "microtasks s = [] \<Longrightarrow> drain env s = s"
  by (simp add: drain.simps)

lemma drain_Cons:
  "microtasks s = t # q \<Longrightarrow> drain env s = drain env (run_task env t (s\<lparr>microtasks := q\<rparr>))"
  by (subst drain.simps) simp

section \<open>What each operation leaves alone\<close>

lemma settle_frame [simp]:
  "presets_map (settle p res s) = presets_map s"
  "presets_proto_replaced (settle p res s) = presets_proto_replaced s"
  "requested_set (settle p res s) = requested_set s"
  "requests (settle p res s) = requests s"
  "loads (settle p res s) = loads s"
  "errors_logged (settle p res s) = errors_logged s"
  "constructed (settle p res s) = constructed s"
  "PRESETS (settle p res s) = PRESETS s"
  "APPLIED_DEFAULTS (settle p res s) = APPLIED_DEFAULTS s"
  "settings_writes (settle p res s) = settings_writes s"
  "executed (settle p res s) = executed s"
  "length (promises (settle p res s)) = length (promises s)"
  by (simp_all add: settle_def split: promise.splits)

lemma set_preset_frame [simp]:
  "presets_map (set_preset k p s) = (presets_map s)(k \<mapsto> p)"
  "requested_set (set_preset k p s) = requested_set s"
  "promises (set_preset k p s) = promises s"
  "microtasks (set_preset k p s) = microtasks s"
  "requests (set_preset k p s) = requests s"
  "loads (set_preset k p s) = loads s"
  "errors_logged (set_preset k p s) = errors_logged s"
  "constructed (set_preset k p s) = constructed s"
  "PRESETS (set_preset k p s) = PRESETS s"
  "APPLIED_DEFAULTS (set_preset k p s) = APPLIED_DEFAULTS s"
  "settings_writes (set_preset k p s) = settings_writes s"
  "executed (set_preset k p s) = executed s"
  by (simp_all add: set_preset_def)

lemma requested_frame [simp]:
  "requested (s\<lparr>promises := ps\<rparr>) u = requested s u"
  "requested (s\<lparr>microtasks := q\<rparr>) u = requested s u"
  "requested (s\<lparr>requests := rs\<rparr>) u = requested s u"
  "requested (s\<lparr>loads := ls\<rparr>) u = requested s u"
  "requested (s\<lparr>constructed := cs\<rparr>) u = requested s u"
  "requested (s\<lparr>presets_map := m\<rparr>) u = requested s u"
  by (simp_all add: requested_def)

lemma handleLoadError_frame [simp]:
  "fst (handleLoadError r s) = Inr Undefined"
  "presets_map (snd (handleLoadError r s)) = presets_map s"
  "presets_proto_replaced (snd (handleLoadError r s)) = presets_proto_replaced s"
  "requested_set (snd (handleLoadError r s)) = requested_set s"
  "promises (snd (handleLoadError r s)) = promises s"
  "microtasks (snd (handleLoadError r s)) = microtasks s"
  "requests (snd (handleLoadError r s)) = requests s"
  "loads (snd (handleLoadError r s)) = loads s"
  "constructed (snd (handleLoadError r s)) = constructed s"
  "PRESETS (snd (handleLoadError r s)) = PRESETS s"
  "APPLIED_DEFAULTS (snd (handleLoadError r s)) = APPLIED_DEFAULTS s"
  "settings_writes (snd (handleLoadError r s)) = settings_writes s"
  "executed (snd (handleLoadError r s)) = executed s"
  by (simp_all add: handleLoadError_def Let_def)

lemma applyDefaults_frame [simp]:
  "presets_map (applyDefaults i ps s) = presets_map s"
  "presets_proto_replaced (applyDefaults i ps s) = presets_proto_replaced s"
  "requested_set (applyDefaults i ps s) = requested_set s"
  "promises (applyDefaults i ps s) = promises s"
  "microtasks (applyDefaults i ps s) = microtasks s"
  "requests (applyDefaults i ps s) = requests s"
  "loads (applyDefaults i ps s) = loads s"
  "errors_logged (applyDefaults i ps s) = errors_logged s"
  "constructed (applyDefaults i ps s) = constructed s"
  "PRESETS (applyDefaults i ps s) = PRESETS s"
  by (simp_all add: applyDefaults_def Let_def split: pval.splits option.splits item.splits)

lemma then_outer_frame [simp]:
  "presets_map (then_outer p t u s) = presets_map s"
  "presets_proto_replaced (then_outer p t u s) = presets_proto_replaced s"
  "requested_set (then_outer p t u s) = requested_set s"
  "requests (then_outer p t u s) = requests s"
  "loads (then_outer p t u s) = loads s"
  "errors_logged (then_outer p t u s) = errors_logged s"
  "constructed (then_outer p t u s) = constructed s"
  "PRESETS (then_outer p t u s) = PRESETS s"
  "APPLIED_DEFAULTS (then_outer p t u s) = APPLIED_DEFAULTS s"
  "settings_writes (then_outer p t u s) = settings_writes s"
  "executed (then_outer p t u s) = executed s"
  "length (promises (then_outer p t u s)) = Suc (length (promises s))"
  by (simp_all add: then_outer_def Let_def split: promise.splits)

lemma registerPreset_frame [simp]:
  "loads (snd (registerPreset t u s)) = loads s"
  "errors_logged (snd (registerPreset t u s)) = errors_logged s"
  "PRESETS (snd (registerPreset t u s)) = PRESETS s"
  "APPLIED_DEFAULTS (snd (registerPreset t u s)) = APPLIED_DEFAULTS s"
  "settings_writes (snd (registerPreset t u s)) = settings_writes s"
  "executed (snd (registerPreset t u s)) = executed s"
  by (simp_all add: registerPreset_def Let_def split: lookup.splits)

lemma parse_callback_frame [simp]: "snd (parse_callback env result s) = s"
  by (simp add: parse_callback_def split: sum.splits)

lemma merge_outer_frame [simp]:
  "fst (merge_outer t u orig s) = Inr Undefined"
  "presets_map (snd (merge_outer t u orig s)) = presets_map s"
  "presets_proto_replaced (snd (merge_outer t u orig s)) = presets_proto_replaced s"
  "requested_set (snd (merge_outer t u orig s)) = requested_set s"
  "microtasks (snd (merge_outer t u orig s)) = microtasks s"
  "loads (snd (merge_outer t u orig s)) = loads s"
  "errors_logged (snd (merge_outer t u orig s)) = errors_logged s"
  "PRESETS (snd (merge_outer t u orig s)) = PRESETS s"
  "APPLIED_DEFAULTS (snd (merge_outer t u orig s)) = APPLIED_DEFAULTS s"
  "settings_writes (snd (merge_outer t u orig s)) = settings_writes s"
  "executed (snd (merge_outer t u orig s)) = executed s"
  by (simp_all add: merge_outer_def Let_def)

lemma merge_inner_frame [simp]:
  "requested_set (snd (merge_inner env t orig np result s)) = requested_set s"
  "promises (snd (merge_inner env t orig np result s)) = promises s"
  "microtasks (snd (merge_inner env t orig np result s)) = microtasks s"
  "requests (snd (merge_inner env t orig np result s)) = requests s"
  "loads (snd (merge_inner env t orig np result s)) = loads s"
  "errors_logged (snd (merge_inner env t orig np result s)) = errors_logged s"
  "constructed (snd (merge_inner env t orig np result s)) = constructed s"
  "PRESETS (snd (merge_inner env t orig np result s)) = PRESETS s"
  "APPLIED_DEFAULTS (snd (merge_inner env t orig np result s)) = APPLIED_DEFAULTS s"
  "settings_writes (snd (merge_inner env t orig np result s)) = settings_writes s"
  "executed (snd (merge_inner env t orig np result s)) = executed s"
  by (simp_all add: merge_inner_def Let_def split: sum.splits option.splits)

lemma initPreset_frame [simp]:
  "requested_set (snd (initPreset env i ap s)) = requested_set s"
  "microtasks (snd (initPreset env i ap s)) = microtasks s"
  "requests (snd (initPreset env i ap s)) = requests s"
  "errors_logged (snd (initPreset env i ap s)) = errors_logged s"
  "PRESETS (snd (initPreset env i ap s)) = PRESETS s"
  "APPLIED_DEFAULTS (snd (initPreset env i ap s)) = APPLIED_DEFAULTS s"
  "settings_writes (snd (initPreset env i ap s)) = settings_writes s"
  "executed (snd (initPreset env i ap s)) = executed s"
  by (simp_all add: initPreset_def Let_def split: sum.splits)

lemma getPresets_frame [simp]:
  "requested_set (snd (getPresets env i ap s)) = requested_set s"
  "microtasks (snd (getPresets env i ap s)) = microtasks s"
  "requests (snd (getPresets env i ap s)) = requests s"
  "errors_logged (snd (getPresets env i ap s)) = errors_logged s"
  "PRESETS (snd (getPresets env i ap s)) = PRESETS s"
  "APPLIED_DEFAULTS (snd (getPresets env i ap s)) = APPLIED_DEFAULTS s"
  "settings_writes (snd (getPresets env i ap s)) = settings_writes s"
  "executed (snd (getPresets env i ap s)) = executed s"
  by (simp_all add: getPresets_def initPreset_def Let_def split: lookup.splits sum.splits)

section \<open>handleLoadError and applyDefaults\<close>

text \<open>
  C7. For every reason, \<open>handleLoadError\<close> logs exactly one error line and returns
  normally (with \<^verbatim>\<open>undefined\<close>), changing nothing else. The line is the fixed text
  "Failed to load presets. Reason: " followed by the reason itself when it is a string, by
  the error's message when it is an \<^verbatim>\<open>Error\<close>, and by "Unspecified error." otherwise.
\<close>

theorem handleLoadError_logs_once:
  "fst (handleLoadError reason s) = Inr Undefined \<and>
   errors_logged (snd (handleLoadError reason s)) =
     errors_logged s @
       [''Failed to load presets. Reason: '' @
        (case reason of RString str \<Rightarrow> str | RError message \<Rightarrow> message
         | ROther \<Rightarrow> ''Unspecified error.'')] \<and>
   length (errors_logged (snd (handleLoadError reason s))) = Suc (length (errors_logged s)) \<and>
   (snd (handleLoadError reason s))\<lparr>errors_logged := errors_logged s\<rparr> = s"
  by (simp add: handleLoadError_def Let_def)

theorem handleLoadError_logs_once_witness:
  "errors_logged (snd (handleLoadError (RString ''timeout'') (init Map.empty Map.empty))) =
     [''Failed to load presets. Reason: timeout''] \<and>
   errors_logged (snd (handleLoadError (RError ''Unexpected token'') (init Map.empty Map.empty))) =
     [''Failed to load presets. Reason: Unexpected token''] \<and>
   errors_logged (snd (handleLoadError ROther (init Map.empty Map.empty))) =
     [''Failed to load presets. Reason: Unspecified error.''] \<and>
   fst (handleLoadError ROther (init Map.empty Map.empty)) = Inr Undefined"
  using handleLoadError_logs_once [of "RString ''timeout''" "init Map.empty Map.empty"]
    handleLoadError_logs_once [of "RError ''Unexpected token''" "init Map.empty Map.empty"]
    handleLoadError_logs_once [of ROther "init Map.empty Map.empty"]
  by (simp add: init_def)

text \<open>
  C10. When \<open>applyDefaults\<close> is called with something that is not an array, with an
  empty array, or with an id whose stored applied-defaults flag is already true, it
  returns the state it was given: no command is executed, nothing is written to the
  settings store, and the applied-defaults value is unchanged.
\<close>

theorem applyDefaults_guard_frame:
  assumes "(\<forall>ps. presets \<noteq> Arr ps) \<or> presets = Arr [] \<or> APPLIED_DEFAULTS s ident = Some True"
  shows "applyDefaults ident presets s = s \<and>
         executed (applyDefaults ident presets s) = executed s \<and>
         settings_writes (applyDefaults ident presets s) = settings_writes s \<and>
         APPLIED_DEFAULTS (applyDefaults ident presets s) = APPLIED_DEFAULTS s"
  using assms
  by (auto simp: applyDefaults_def applied_truthy_def get_prop_def Let_def split: pval.splits)

theorem applyDefaults_guard_frame_witness:
  "applyDefaults ''layer1'' Null (init Map.empty Map.empty) = init Map.empty Map.empty \<and>
   applyDefaults ''layer1'' (Arr []) (init Map.empty Map.empty) = init Map.empty Map.empty \<and>
   applyDefaults ''layer1'' (Arr [Item (example_preset ''p'' (Some True))])
     (init Map.empty [''layer1'' \<mapsto> True]) = init Map.empty [''layer1'' \<mapsto> True] \<and>
   executed (applyDefaults ''layer1'' (Arr [Item (example_preset ''p'' (Some True))])
     (init Map.empty [''layer1'' \<mapsto> True])) = []"
  using applyDefaults_guard_frame [of Null "init Map.empty Map.empty" "''layer1''"]
    applyDefaults_guard_frame [of "Arr []" "init Map.empty Map.empty" "''layer1''"]
    applyDefaults_guard_frame [of "Arr [Item (example_preset ''p'' (Some True))]"
      "init Map.empty [''layer1'' \<mapsto> True]" "''layer1''"]
  by (simp add: init_def)

text \<open>
  C3, as the specification states it, says that \<open>applyDefaults\<close> with an empty list
  still records the id as applied. The guard of line 176 skips the whole block for an
  empty list: on a fresh settings store the id is not recorded.
\<close>

theorem applyDefaults_empty_marks_counterexample:
  "executed (applyDefaults ''layer1'' (Arr []) (init Map.empty Map.empty)) = [] \<and>
   APPLIED_DEFAULTS (applyDefaults ''layer1'' (Arr []) (init Map.empty Map.empty)) ''layer1''
     = None \<and>
   settings_writes (applyDefaults ''layer1'' (Arr []) (init Map.empty Map.empty)) = []"
  by (simp add: applyDefaults_def init_def)

text \<open>
  C3, amended. For every id, \<open>applyDefaults\<close> with an empty list executes no command
  and does not record the id: the applied-defaults value and the settings store are left
  as they were. The id is recorded only by a call with a non-empty list; such a call, for
  an id whose flag \<^verbatim>\<open>applied[id]\<close> reads as falsy, records it and writes the value to
  the settings store, whether or not the list holds a default record.
\<close>

theorem applyDefaults_empty_list:
  "executed (applyDefaults ident (Arr []) s) = executed s \<and>
   APPLIED_DEFAULTS (applyDefaults ident (Arr []) s) = APPLIED_DEFAULTS s \<and>
   settings_writes (applyDefaults ident (Arr []) s) = settings_writes s \<and>
   (\<forall>presets. APPLIED_DEFAULTS (applyDefaults ident presets s) \<noteq> APPLIED_DEFAULTS s \<longrightarrow>
      (\<exists>xs. presets = Arr xs \<and> xs \<noteq> [])) \<and>
   (\<forall>xs. xs \<noteq> [] \<and> \<not> applied_truthy (APPLIED_DEFAULTS s) ident \<longrightarrow>
      APPLIED_DEFAULTS (applyDefaults ident (Arr xs) s) = (APPLIED_DEFAULTS s)(ident \<mapsto> True) \<and>
      settings_writes (applyDefaults ident (Arr xs) s) =
        settings_writes s @ [(APPLIED_DEFAULTS s)(ident \<mapsto> True)])"
proof -
  have only: "\<exists>xs. presets = Arr xs \<and> xs \<noteq> []"
    if "APPLIED_DEFAULTS (applyDefaults ident presets s) \<noteq> APPLIED_DEFAULTS s" for presets
    using that by (cases presets) (auto simp: applyDefaults_def Let_def split: if_splits)
  have marks: "APPLIED_DEFAULTS (applyDefaults ident (Arr xs) s) = (APPLIED_DEFAULTS s)(ident \<mapsto> True) \<and>
      settings_writes (applyDefaults ident (Arr xs) s) =
        settings_writes s @ [(APPLIED_DEFAULTS s)(ident \<mapsto> True)]"
    if "xs \<noteq> []" and "\<not> applied_truthy (APPLIED_DEFAULTS s) ident" for xs
    using that by (simp add: applyDefaults_def Let_def split: option.splits item.splits)
  have empty: "applyDefaults ident (Arr []) s = s"
    by (simp add: applyDefaults_def Let_def)
  from only marks empty show ?thesis by simp
qed

theorem applyDefaults_empty_list_witness:
  "executed (applyDefaults ''layer1'' (Arr []) (init Map.empty Map.empty)) = [] \<and>
   APPLIED_DEFAULTS (applyDefaults ''layer1'' (Arr []) (init Map.empty Map.empty)) = Map.empty \<and>
   [Item (example_preset ''p'' None)] \<noteq> [] \<and>
   \<not> applied_truthy (APPLIED_DEFAULTS (init Map.empty Map.empty)) ''layer1'' \<and>
   APPLIED_DEFAULTS (applyDefaults ''layer1'' (Arr [Item (example_preset ''p'' None)])
      (init Map.empty Map.empty)) = [''layer1'' \<mapsto> True] \<and>
   settings_writes (applyDefaults ''layer1'' (Arr [Item (example_preset ''p'' None)])
      (init Map.empty Map.empty)) = [[''layer1'' \<mapsto> True]] \<and>
   APPLIED_DEFAULTS (applyDefaults ''layer1'' (Arr [Item (example_preset ''p'' None)])
      (init Map.empty Map.empty)) \<noteq> APPLIED_DEFAULTS (init Map.empty Map.empty) \<and>
   (\<exists>xs. Arr [Item (example_preset ''p'' None)] = Arr xs \<and> xs \<noteq> [])"
proof -
  have f: "\<not> applied_truthy (APPLIED_DEFAULTS (init Map.empty Map.empty)) ''layer1''"
    by (simp add: applied_truthy_def get_prop_def proto_members_def init_def)
  have i: "APPLIED_DEFAULTS (init Map.empty Map.empty) = Map.empty"
    "settings_writes (init Map.empty Map.empty) = []" "executed (init Map.empty Map.empty) = []"
    by (simp_all add: init_def)
  have ne: "[''layer1'' \<mapsto> True] \<noteq> Map.empty" by simp
  from applyDefaults_empty_list [of "''layer1''" "init Map.empty Map.empty"] f i ne
  show ?thesis by simp
qed

section \<open>A default is applied at most once\<close>

lemma applied_truthy_update:
  "applied_truthy applied i \<Longrightarrow> applied_truthy (applied(j \<mapsto> True)) i"
  by (simp add: applied_truthy_def get_prop_def split: option.splits)

lemma applyDefaults_applied:
  assumes "applied_truthy (APPLIED_DEFAULTS s) i"
  shows "applied_truthy (APPLIED_DEFAULTS (applyDefaults j ps s)) i"
    and "commands_for i (applyDefaults j ps s) = commands_for i s"
  using assms
  by (auto simp: applyDefaults_def commands_for_def Let_def applied_truthy_update
      split: pval.splits option.splits item.splits)

lemma applyDefaults_already:
  "applied_truthy (APPLIED_DEFAULTS s) i \<Longrightarrow> applyDefaults i ps s = s"
  by (simp add: applyDefaults_def Let_def split: pval.splits)

lemma applyDefaults_marks:
  "xs \<noteq> [] \<Longrightarrow> applied_truthy (APPLIED_DEFAULTS (applyDefaults i (Arr xs) s)) i"
  by (cases "applied_truthy (APPLIED_DEFAULTS s) i")
    (simp_all add: applyDefaults_def Let_def applied_truthy_def get_prop_def
      split: option.splits item.splits)

lemma run_task_applied:
  assumes "applied_truthy (APPLIED_DEFAULTS s) i"
  shows "applied_truthy (APPLIED_DEFAULTS (run_task env t s)) i \<and>
         commands_for i (run_task env t s) = commands_for i s"
proof (cases t)
  case (RunParse c res)
  with assms show ?thesis
    by (cases res) (simp_all add: split_def Let_def commands_for_def)
next
  case (RunMergeInner ty orig np res)
  with assms show ?thesis
    by (cases res) (simp_all add: split_def Let_def commands_for_def)
next
  case (RunMergeOuter ty url c res)
  with assms show ?thesis
    by (cases res) (simp_all add: split_def Let_def commands_for_def)
next
  case (RunInit j ap ps p)
  with assms applyDefaults_applied[OF assms, of j ps] show ?thesis
    by (simp add: commands_for_def)
qed

lemma step_applied:
  assumes "applied_truthy (APPLIED_DEFAULTS s) i"
  shows "applied_truthy (APPLIED_DEFAULTS (step env s e)) i \<and>
         commands_for i (step env s e) = commands_for i s"
proof (cases e)
  case (RunTask k)
  show ?thesis
  proof (cases "k < length (microtasks s)")
    case True
    let ?s' = "s\<lparr>microtasks := take k (microtasks s) @ drop (Suc k) (microtasks s)\<rparr>"
    have "applied_truthy (APPLIED_DEFAULTS ?s') i" using assms by simp
    from run_task_applied[OF this, of env "microtasks s ! k"] RunTask True show ?thesis
      by (simp add: commands_for_def)
  next
    case False
    with RunTask assms show ?thesis by simp
  qed
next
  case (ApplyDefaults j ps)
  with applyDefaults_applied[OF assms, of j ps] show ?thesis by simp
qed (use assms in \<open>simp_all add: commands_for_def Let_def\<close>)

lemma run_applied:
  assumes "applied_truthy (APPLIED_DEFAULTS s) i"
  shows "applied_truthy (APPLIED_DEFAULTS (run env s evs)) i \<and>
         commands_for i (run env s evs) = commands_for i s"
  using assms
proof (induction evs arbitrary: s)
  case Nil
  then show ?case by (simp add: run_def)
next
  case (Cons e evs)
  from step_applied[OF Cons.prems, of env e] Cons.IH[of "step env s e"]
  show ?case by (simp add: run_def)
qed

text \<open>
  C4. For every id and every non-empty preset list, a first call of \<open>applyDefaults\<close>
  executes at most one command, and it marks the id as applied when the flag
  \<^verbatim>\<open>applied[id]\<close> read as falsy before; after the call the flag reads as truthy. From
  then on, whatever the manager does in between, a further call of \<open>applyDefaults\<close> for
  that id (with any list) executes no command and changes nothing, and no command for that
  id is executed by any other event either.
\<close>

theorem applyDefaults_at_most_once:
  assumes "ps \<noteq> []"
  shows "(\<not> applied_truthy (APPLIED_DEFAULTS s) ident \<longrightarrow>
            APPLIED_DEFAULTS (applyDefaults ident (Arr ps) s) ident = Some True) \<and>
         applied_truthy (APPLIED_DEFAULTS (applyDefaults ident (Arr ps) s)) ident \<and>
         length (executed (applyDefaults ident (Arr ps) s)) \<le> Suc (length (executed s)) \<and>
         (\<forall>evs presets.
            applyDefaults ident presets (run env (applyDefaults ident (Arr ps) s) evs)
              = run env (applyDefaults ident (Arr ps) s) evs \<and>
            executed (applyDefaults ident presets (run env (applyDefaults ident (Arr ps) s) evs))
              = executed (run env (applyDefaults ident (Arr ps) s) evs) \<and>
            commands_for ident (run env (applyDefaults ident (Arr ps) s) evs)
              = commands_for ident (applyDefaults ident (Arr ps) s))"
proof -
  have first: "\<not> applied_truthy (APPLIED_DEFAULTS s) ident \<longrightarrow>
            APPLIED_DEFAULTS (applyDefaults ident (Arr ps) s) ident = Some True"
    using assms by (simp add: applyDefaults_def Let_def split: option.splits item.splits)
  have marked: "applied_truthy (APPLIED_DEFAULTS (applyDefaults ident (Arr ps) s)) ident"
    using assms by (rule applyDefaults_marks)
  have once: "length (executed (applyDefaults ident (Arr ps) s)) \<le> Suc (length (executed s))"
    by (simp add: applyDefaults_def Let_def split: option.splits item.splits)
  have later: "applyDefaults ident presets (run env (applyDefaults ident (Arr ps) s) evs)
              = run env (applyDefaults ident (Arr ps) s) evs \<and>
       executed (applyDefaults ident presets (run env (applyDefaults ident (Arr ps) s) evs))
         = executed (run env (applyDefaults ident (Arr ps) s) evs) \<and>
       commands_for ident (run env (applyDefaults ident (Arr ps) s) evs)
         = commands_for ident (applyDefaults ident (Arr ps) s)" for evs presets
  proof -
    from run_applied[OF marked, of env evs]
    have m: "applied_truthy (APPLIED_DEFAULTS (run env (applyDefaults ident (Arr ps) s) evs)) ident"
      and c: "commands_for ident (run env (applyDefaults ident (Arr ps) s) evs)
               = commands_for ident (applyDefaults ident (Arr ps) s)" by simp_all
    from c applyDefaults_already[OF m, of presets] show ?thesis by simp
  qed
  from first marked once later show ?thesis by (intro conjI allI) simp_all
qed

theorem applyDefaults_at_most_once_witness:
  "[Item (example_preset ''b'' (Some True))] \<noteq> [] \<and>
   \<not> applied_truthy (APPLIED_DEFAULTS (init Map.empty Map.empty)) ''layer1'' \<and>
   APPLIED_DEFAULTS (applyDefaults ''layer1'' (Arr [Item (example_preset ''b'' (Some True))])
      (init Map.empty Map.empty)) ''layer1'' = Some True \<and>
   executed (applyDefaults ''layer1'' (Arr [Item (example_preset ''b'' (Some True))])
      (init Map.empty Map.empty)) = [(''layer1'', example_preset ''b'' (Some True))] \<and>
   executed (applyDefaults ''layer1'' (Arr [Item (example_preset ''b'' (Some True))])
      (applyDefaults ''layer1'' (Arr [Item (example_preset ''b'' (Some True))])
         (init Map.empty Map.empty))) = [(''layer1'', example_preset ''b'' (Some True))]"
proof -
  have ne: "[Item (example_preset ''b'' (Some True))] \<noteq> []" by simp
  have f: "\<not> applied_truthy (APPLIED_DEFAULTS (init Map.empty Map.empty)) ''layer1''"
    by (simp add: applied_truthy_def get_prop_def proto_members_def init_def)
  have first: "executed (applyDefaults ''layer1'' (Arr [Item (example_preset ''b'' (Some True))])
      (init Map.empty Map.empty)) = [(''layer1'', example_preset ''b'' (Some True))]"
    using f by (simp add: applyDefaults_def init_def example_preset_def Let_def)
  from applyDefaults_at_most_once [OF ne, of "init Map.empty Map.empty" "''layer1''" example_env] f
  have "APPLIED_DEFAULTS (applyDefaults ''layer1'' (Arr [Item (example_preset ''b'' (Some True))])
      (init Map.empty Map.empty)) ''layer1'' = Some True"
    and "\<And>evs presets. executed (applyDefaults ''layer1'' presets
        (run example_env (applyDefaults ''layer1'' (Arr [Item (example_preset ''b'' (Some True))])
          (init Map.empty Map.empty)) evs))
      = executed (run example_env (applyDefaults ''layer1''
          (Arr [Item (example_preset ''b'' (Some True))]) (init Map.empty Map.empty)) evs)"
    by blast+
  from this(1) this(2)[of "Arr [Item (example_preset ''b'' (Some True))]" "[]"] first ne f
  show ?thesis by (simp add: run_def)
qed

section \<open>One fetch for each URL\<close>

lemma sum_list_map_update:
  fixes f :: "'a \<Rightarrow> nat"
  shows "p < length ps \<Longrightarrow>
    sum_list (map f (ps[p := q])) + f (ps ! p) = sum_list (map f ps) + f q"
proof (induction ps arbitrary: p)
  case Nil
  then show ?case by simp
next
  case (Cons a ps)
  then show ?case by (cases p) auto
qed

lemma scheduled_entries_for:
  "length (filter (task_for url \<circ> (\<lambda>(t, u, c). RunMergeOuter t u c res)) es) =
   length (filter (\<lambda>e. fst (snd e) = url) es)"
  by (induction es) (auto simp: task_for_def)

lemma fetch_budget_same:
  "fetches url s' = fetches url s \<Longrightarrow> outstanding url s' = outstanding url s \<Longrightarrow>
   requested_set s' = requested_set s \<Longrightarrow> fetch_budget url s' = fetch_budget url s"
  by (simp add: fetch_budget_def requested_def)

lemma outstanding_settle: "outstanding url (settle p res s) = outstanding url s"
proof (cases "p < length (promises s)")
  case False
  then show ?thesis by (simp add: settle_def)
next
  case True
  show ?thesis
  proof (cases "promises s ! p")
    case (Pending es)
    let ?q = "case res of Inl r \<Rightarrow> Rejected r | Inr v \<Rightarrow> Fulfilled v"
    have "entries_for url ?q = 0"
      by (simp add: entries_for_def split: sum.splits)
    with sum_list_map_update[OF True, of "entries_for url" ?q] Pending
    have "sum_list (map (entries_for url) ((promises s)[p := ?q])) +
            length (filter (\<lambda>e. fst (snd e) = url) es) =
          sum_list (map (entries_for url) (promises s))"
      by (simp add: entries_for_def)
    with Pending True show ?thesis
      by (simp add: settle_def outstanding_def scheduled_entries_for)
  next
    case (Fulfilled v)
    with True show ?thesis by (simp add: settle_def)
  next
    case (Rejected r)
    with True show ?thesis by (simp add: settle_def)
  qed
qed

lemma fetches_settle [simp]: "fetches url (settle p res s) = fetches url s"
  by (simp add: fetches_def)

lemma outstanding_then_outer:
  "outstanding url (then_outer p t u s) \<le> outstanding url s + (if u = url then 1 else 0)"
proof (cases "p < length (promises s)")
  case False
  then show ?thesis
    by (simp add: then_outer_def Let_def outstanding_def entries_for_def)
next
  case True
  show ?thesis
  proof (cases "promises s ! p")
    case (Pending es)
    let ?q = "Pending (es @ [(t, u, length (promises s))])"
    from sum_list_map_update[OF True, of "entries_for url" ?q] Pending
    have "sum_list (map (entries_for url) ((promises s)[p := ?q])) \<le>
          sum_list (map (entries_for url) (promises s)) + (if u = url then 1 else 0)"
      by (simp add: entries_for_def split: if_splits)
    with Pending True show ?thesis
      by (simp add: then_outer_def Let_def outstanding_def list_update_append entries_for_def)
  next
    case (Fulfilled v)
    with True show ?thesis
      by (simp add: then_outer_def Let_def outstanding_def entries_for_def task_for_def)
  next
    case (Rejected r)
    with True show ?thesis
      by (simp add: then_outer_def Let_def outstanding_def entries_for_def task_for_def)
  qed
qed

lemma fetches_then_outer [simp]: "fetches url (then_outer p t u s) = fetches url s"
  by (simp add: fetches_def)

lemma fetch_budget_registerPreset:
  assumes "fetch_budget url s"
  shows "fetch_budget url (snd (registerPreset t u s))"
proof (cases "requested s u")
  case True
  with assms show ?thesis by (simp add: registerPreset_def)
next
  case False
  let ?s1 = "s\<lparr>requested_set := insert u (requested_set s)\<rparr>"
  have same: "fetches url ?s1 = fetches url s" "outstanding url ?s1 = outstanding url s"
    by (simp_all add: fetches_def outstanding_def)
  have mark: "requested ?s1 url = (requested s url \<or> u = url)"
    by (auto simp: requested_def)
  have budget: "fetches url s + outstanding url s + (if u = url then 1 else 0)
      \<le> (if requested ?s1 url then 1 else 0)"
    using assms False mark by (auto simp: fetch_budget_def)
  show ?thesis
  proof (cases "get_prop (presets_map s) t")
    case Missing
    have "fetches url (snd (registerPreset t u s)) = fetches url s + (if u = url then 1 else 0)"
      and "outstanding url (snd (registerPreset t u s)) = outstanding url s"
      and "requested (snd (registerPreset t u s)) url = requested ?s1 url"
      using Missing False
      by (simp_all add: registerPreset_def Let_def set_preset_def fetches_def outstanding_def
          entries_for_def requested_def)
    with budget show ?thesis by (simp add: fetch_budget_def)
  next
    case (Inherited m)
    have "snd (registerPreset t u s) = ?s1"
      using Inherited False by (simp add: registerPreset_def Let_def)
    with budget same show ?thesis by (simp add: fetch_budget_def)
  next
    case (Own p)
    from outstanding_then_outer[of url p t u ?s1] same
    have "outstanding url (then_outer p t u ?s1) \<le> outstanding url s + (if u = url then 1 else 0)"
      by simp
    moreover have "snd (registerPreset t u s) = then_outer p t u ?s1"
      using Own False by (simp add: registerPreset_def Let_def)
    moreover have "requested (then_outer p t u ?s1) url = requested ?s1 url"
      by (simp add: requested_def)
    moreover have "fetches url (then_outer p t u ?s1) = fetches url s"
      using same by simp
    ultimately show ?thesis using budget by (simp add: fetch_budget_def)
  qed
qed

lemma fetch_total_run_task:
  "fetches url (run_task env t s) + outstanding url (run_task env t s) \<le>
   fetches url s + outstanding url s + (if task_for url t then 1 else 0)"
proof (cases t)
  case (RunParse c res)
  then show ?thesis
    by (cases res) (simp_all add: split_def Let_def outstanding_settle,
        simp add: fetches_def outstanding_def)
next
  case (RunMergeInner ty orig np res)
  then show ?thesis
    by (cases res) (simp_all add: split_def Let_def outstanding_settle,
        simp_all add: fetches_def outstanding_def)
next
  case (RunMergeOuter ty url' c res)
  show ?thesis
  proof (cases res)
    case (Inl r)
    with RunMergeOuter show ?thesis
      by (simp add: split_def Let_def outstanding_settle, simp add: fetches_def outstanding_def)
  next
    case (Inr orig)
    with RunMergeOuter show ?thesis
      by (simp add: split_def Let_def outstanding_settle,
          simp add: fetches_def outstanding_def merge_outer_def task_for_def Let_def
            entries_for_def)
  qed
next
  case (RunInit i ap ps p)
  then show ?thesis
    by (simp add: outstanding_settle, simp add: fetches_def outstanding_def)
qed

lemma requested_run_task [simp]: "requested_set (run_task env t s) = requested_set s"
proof (cases t)
  case (RunParse c res)
  then show ?thesis by (cases res) (simp_all add: split_def Let_def)
next
  case (RunMergeInner ty orig np res)
  then show ?thesis by (cases res) (simp_all add: split_def Let_def)
next
  case (RunMergeOuter ty url c res)
  then show ?thesis by (cases res) (simp_all add: split_def Let_def)
next
  case (RunInit i ap ps p)
  then show ?thesis by simp
qed

lemma requested_after_run_task [simp]: "requested (run_task env t s) u = requested s u"
  by (simp add: requested_def)

lemma length_filter_remove_nth:
  "k < length q \<Longrightarrow>
   length (filter P (take k q @ drop (Suc k) q)) + (if P (q ! k) then 1 else 0) =
   length (filter P q)"
proof -
  assume "k < length q"
  then have "q = take k q @ (q ! k) # drop (Suc k) q"
    by (simp add: id_take_nth_drop)
  then have "length (filter P q) = length (filter P (take k q @ (q ! k) # drop (Suc k) q))"
    by simp
  then show ?thesis by simp
qed

lemma map_req_url_done:
  "map req_url (rs[i := (rs ! i)\<lparr>req_done := True\<rparr>]) = map req_url rs"
  by (induction rs arbitrary: i) (auto split: nat.splits)

lemma fetch_budget_initPreset:
  "fetch_budget url (snd (initPreset env i ap s)) = fetch_budget url s"
  by (rule fetch_budget_same)
    (simp_all add: fetches_def outstanding_def initPreset_def Let_def entries_for_def
      set_preset_def split: sum.splits)

lemma fetch_budget_getPresets:
  "fetch_budget url (snd (getPresets env i ap s)) = fetch_budget url s"
proof (cases "get_prop (presets_map s) i")
  case Missing
  have "snd (getPresets env i ap s) = snd (initPreset env i ap s)"
    using Missing by (simp add: getPresets_def split: prod.splits option.splits)
  then show ?thesis by (simp add: fetch_budget_initPreset)
qed (simp_all add: getPresets_def)

lemma fetch_budget_step:
  assumes "fetch_budget url s"
  shows "fetch_budget url (step env s e)"
proof (cases e)
  case (RegisterPreset t u)
  with fetch_budget_registerPreset[OF assms] show ?thesis by simp
next
  case (GetPresets i ap)
  with assms show ?thesis
    by (simp add: fetch_budget_getPresets)
next
  case (InitPreset i ap)
  with assms show ?thesis
    by (simp add: fetch_budget_initPreset)
next
  case (ApplyDefaults i ps)
  have "fetch_budget url (applyDefaults i ps s) = fetch_budget url s"
    by (rule fetch_budget_same) (simp_all add: fetches_def outstanding_def)
  with ApplyDefaults assms show ?thesis by simp
next
  case (Response i res)
  have "fetch_budget url (step env s (Response i res)) = fetch_budget url s"
    by (rule fetch_budget_same)
      (simp_all add: fetches_def outstanding_def map_req_url_done task_for_def
        split: request_then.splits)
  with Response assms show ?thesis by simp
next
  case (LoadSettled j ok)
  have "fetch_budget url (step env s (LoadSettled j ok)) = fetch_budget url s"
    by (rule fetch_budget_same)
      (simp_all add: fetches_def outstanding_def task_for_def Let_def)
  with LoadSettled assms show ?thesis by simp
next
  case (RunTask k)
  show ?thesis
  proof (cases "k < length (microtasks s)")
    case False
    with RunTask assms show ?thesis by simp
  next
    case True
    let ?s' = "s\<lparr>microtasks := take k (microtasks s) @ drop (Suc k) (microtasks s)\<rparr>"
    from length_filter_remove_nth[OF True, of "task_for url"]
    have "outstanding url ?s' + (if task_for url (microtasks s ! k) then 1 else 0) =
          outstanding url s"
      by (simp add: outstanding_def)
    moreover have "fetches url ?s' = fetches url s" by (simp add: fetches_def)
    moreover note fetch_total_run_task[of url env "microtasks s ! k" ?s']
    ultimately have "fetches url (run_task env (microtasks s ! k) ?s') +
        outstanding url (run_task env (microtasks s ! k) ?s') \<le> fetches url s + outstanding url s"
      by simp
    with RunTask True assms show ?thesis
      by (simp add: fetch_budget_def)
  qed
qed

lemma fetch_budget_run:
  "fetch_budget url s \<Longrightarrow> fetch_budget url (run env s evs)"
proof (induction evs arbitrary: s)
  case Nil
  then show ?case by (simp add: run_def)
next
  case (Cons e evs)
  from Cons.IH[OF fetch_budget_step[OF Cons.prems, of env e]] show ?case
    by (simp add: run_def)
qed

lemma fetch_budget_init: "fetch_budget url (init stored applied)"
  by (simp add: fetch_budget_def init_def fetches_def outstanding_def)

lemma requested_step_mono: "requested_set s \<subseteq> requested_set (step env s e)"
  by (cases e) (auto simp: registerPreset_def Let_def split: lookup.splits)

lemma requested_run_mono: "requested_set s \<subseteq> requested_set (run env s evs)"
proof (induction evs arbitrary: s)
  case Nil
  then show ?case by (simp add: run_def)
next
  case (Cons e evs)
  from requested_step_mono[of s env e] Cons.IH[of "step env s e"] show ?case
    by (auto simp: run_def)
qed

lemma requested_after_register:
  "requested (snd (registerPreset t url s)) url"
  by (auto simp: registerPreset_def Let_def requested_def split: lookup.splits)

lemma requested_mono:
  "requested s url \<Longrightarrow> requested_set s \<subseteq> requested_set s' \<Longrightarrow> requested s' url"
  by (auto simp: requested_def)

lemma requested_after_event:
  "RegisterPreset t url \<in> set evs \<Longrightarrow> requested (run env s evs) url"
proof (induction evs arbitrary: s)
  case Nil
  then show ?case by simp
next
  case (Cons e evs)
  show ?case
  proof (cases "e = RegisterPreset t url")
    case True
    have "requested (step env s e) url"
      using True requested_after_register by simp
    from requested_mono[OF this requested_run_mono[of "step env s e" env evs]] show ?thesis
      by (simp add: run_def)
  next
    case False
    with Cons.prems have "RegisterPreset t url \<in> set evs" by simp
    from Cons.IH[OF this, of "step env s e"] show ?thesis by (simp add: run_def)
  qed
qed

text \<open>
  C2. In every run of a new manager, whatever the events and their order, at most one
  network fetch is ever issued for a URL. Once \<open>registerPreset\<close> has been called with a
  URL (for any type, and whether its fetch succeeded, failed or is still pending), a
  further call with that URL for any type returns normally and leaves the state unchanged:
  no fetch, no change of the cache. (A URL whose name is that of a member of
  \<^verbatim>\<open>Object.prototype\<close> reads as requested from the start and is never fetched.)
\<close>

theorem registerPreset_single_fetch:
  "fetches url (run env (init stored applied) evs) \<le> 1 \<and>
   (RegisterPreset type1 url \<in> set evs \<longrightarrow>
      registerPreset type2 url (run env (init stored applied) evs)
        = (None, run env (init stored applied) evs))"
proof -
  have "fetch_budget url (run env (init stored applied) evs)"
    by (rule fetch_budget_run[OF fetch_budget_init])
  then have "fetches url (run env (init stored applied) evs) \<le> 1"
    by (simp add: fetch_budget_def split: if_splits)
  moreover have "registerPreset type2 url (run env (init stored applied) evs)
        = (None, run env (init stored applied) evs)" if "RegisterPreset type1 url \<in> set evs"
    using requested_after_event[OF that, of env "init stored applied"]
    by (simp add: registerPreset_def)
  ultimately show ?thesis by blast
qed

theorem registerPreset_single_fetch_witness:
  "fetches ''u1'' (run example_env (init Map.empty Map.empty)
      [RegisterPreset ''t1'' ''u1'', Response 0 (Inl (RString ''404'')), RunTask 0]) \<le> 1 \<and>
   RegisterPreset ''t1'' ''u1'' \<in>
     set [RegisterPreset ''t1'' ''u1'', Response 0 (Inl (RString ''404'')), RunTask 0] \<and>
   registerPreset ''t2'' ''u1'' (run example_env (init Map.empty Map.empty)
      [RegisterPreset ''t1'' ''u1'', Response 0 (Inl (RString ''404'')), RunTask 0])
     = (None, run example_env (init Map.empty Map.empty)
      [RegisterPreset ''t1'' ''u1'', Response 0 (Inl (RString ''404'')), RunTask 0])"
  using registerPreset_single_fetch [of "''u1''" example_env Map.empty Map.empty
      "[RegisterPreset ''t1'' ''u1'', Response 0 (Inl (RString ''404'')), RunTask 0]"
      "''t1''" "''t2''"]
  by simp

section \<open>Registering presets: merging, failures and the cache entry\<close>

lemma get_prop_Missing: "get_prop m k = Missing \<longleftrightarrow> m k = None \<and> k \<notin> proto_members"
  by (simp add: get_prop_def split: option.splits)

lemma get_prop_Own: "get_prop m k = Own v \<longleftrightarrow> m k = Some v"
  by (auto simp: get_prop_def split: option.splits)

lemma get_prop_Inherited:
  "get_prop m k = Inherited n \<longleftrightarrow> m k = None \<and> k \<in> proto_members \<and> n = k"
  by (auto simp: get_prop_def split: option.splits)

lemma get_prop_update [simp]: "get_prop (m(k \<mapsto> v)) k = Own v"
  by (simp add: get_prop_def)


lemmas exec_defs = turn_def drain.simps registerPreset_def Let_def then_outer_def settle_def
  parse_callback_def merge_outer_def merge_inner_def nth_append handleLoadError_def
  getPresets_def set_preset_def requested_def get_prop_def

lemma after_first_fetch_facts:
  "microtasks after_first_fetch = []"
  "presets_map after_first_fetch ''t1'' = Some 0"
  "0 < length (promises after_first_fetch)"
  "promises after_first_fetch ! 0 = Fulfilled (Arr [Item (example_preset ''a'' (Some False))])"
  "\<not> requested after_first_fetch ''u2''"
  "requests after_first_fetch = [\<lparr>req_url = ''u1'', req_then = ThenParse 0, req_done = True\<rparr>]"
  "errors_logged after_first_fetch = []"
  "length (promises after_first_fetch) = 1"
  "\<not> presets_proto_replaced after_first_fetch"
  by (simp_all add: after_first_fetch_def exec_defs init_def example_env_def proto_members_def)






section \<open>Failed fetches and texts that do not parse\<close>

lemma keeps_fulfilled_refl: "keeps_fulfilled s s"
  by (simp add: keeps_fulfilled_def)

lemma keeps_fulfilled_trans:
  "keeps_fulfilled s s' \<Longrightarrow> keeps_fulfilled s' s'' \<Longrightarrow> keeps_fulfilled s s''"
  by (simp add: keeps_fulfilled_def)

lemma keeps_fulfilled_settle: "keeps_fulfilled s (settle c res s)"
  by (auto simp: keeps_fulfilled_def settle_def nth_list_update split: promise.splits)

lemma keeps_fulfilled_same:
  "promises s' = promises s \<Longrightarrow> keeps_fulfilled s s'"
  by (simp add: keeps_fulfilled_def)

lemma keeps_fulfilled_append:
  "promises s' = promises s @ ps \<Longrightarrow> keeps_fulfilled s s'"
  by (simp add: keeps_fulfilled_def nth_append)

lemma quiet_is_outer: "quiet_task t \<Longrightarrow> outer_task t"
  by (simp add: quiet_task_def outer_task_def split: task.splits)

lemma settle_new_tasks:
  "set (microtasks (settle c res s)) \<subseteq>
     set (microtasks s) \<union> {RunMergeOuter t u c' res | t u c'. True}"
  by (auto simp: settle_def split: promise.splits)

lemma settle_quiet:
  assumes "\<forall>t \<in> set (microtasks s). quiet_task t"
  shows "\<forall>t \<in> set (microtasks (settle c (Inr v) s)). quiet_task t"
  using assms settle_new_tasks[of c "Inr v" s] by (auto simp: quiet_task_def)

lemma settle_outer:
  assumes "\<forall>t \<in> set (microtasks s). outer_task t"
  shows "\<forall>t \<in> set (microtasks (settle c res s)). outer_task t"
  using assms settle_new_tasks[of c res s] by (auto simp: outer_task_def)

lemma run_outer_task:
  assumes "outer_task t"
  shows "presets_map (run_task env t s) = presets_map s"
    and "keeps_fulfilled s (run_task env t s)"
    and "\<forall>t' \<in> set (microtasks s). outer_task t' \<Longrightarrow>
         \<forall>t' \<in> set (microtasks (run_task env t s)). outer_task t'"
    and "quiet_task t \<Longrightarrow> \<forall>t' \<in> set (microtasks s). quiet_task t' \<Longrightarrow>
         (\<forall>t' \<in> set (microtasks (run_task env t s)). quiet_task t') \<and>
         errors_logged (run_task env t s) = errors_logged s"
proof -
  from assms obtain ty u c res where t: "t = RunMergeOuter ty u c res"
    by (auto simp: outer_task_def split: task.splits)
  show "presets_map (run_task env t s) = presets_map s"
    using t by (cases res) (simp_all add: split_def)
  show "keeps_fulfilled s (run_task env t s)"
  proof (cases res)
    case (Inl r)
    have "keeps_fulfilled s (snd (handleLoadError r s))"
      by (rule keeps_fulfilled_same) simp
    from keeps_fulfilled_trans[OF this keeps_fulfilled_settle] t Inl show ?thesis
      by (simp add: split_def)
  next
    case (Inr v)
    have "keeps_fulfilled s (snd (merge_outer ty u v s))"
      by (rule keeps_fulfilled_append[where ps = "[Pending []]"]) (simp add: merge_outer_def Let_def)
    from keeps_fulfilled_trans[OF this keeps_fulfilled_settle] t Inr show ?thesis
      by (simp add: split_def)
  qed
  show "\<forall>t' \<in> set (microtasks (run_task env t s)). outer_task t'"
    if "\<forall>t' \<in> set (microtasks s). outer_task t'"
  proof (cases res)
    case (Inl r)
    from that have "\<forall>t' \<in> set (microtasks (snd (handleLoadError r s))). outer_task t'" by simp
    from settle_outer[OF this] t Inl show ?thesis by (simp add: split_def)
  next
    case (Inr v)
    from that have "\<forall>t' \<in> set (microtasks (snd (merge_outer ty u v s))). outer_task t'" by simp
    from settle_outer[OF this] t Inr show ?thesis by (simp add: split_def)
  qed
  show "(\<forall>t' \<in> set (microtasks (run_task env t s)). quiet_task t') \<and>
         errors_logged (run_task env t s) = errors_logged s"
    if q: "quiet_task t" and all: "\<forall>t' \<in> set (microtasks s). quiet_task t'"
  proof -
    from q t obtain v where res: "res = Inr v"
      by (cases res) (simp_all add: quiet_task_def)
    from all have "\<forall>t' \<in> set (microtasks (snd (merge_outer ty u v s))). quiet_task t'" by simp
    from settle_quiet[OF this] t res show ?thesis by (simp add: split_def)
  qed
qed

lemma drain_outer_tasks:
  "\<forall>t \<in> set (microtasks s). outer_task t \<Longrightarrow>
     presets_map (drain env s) = presets_map s \<and> keeps_fulfilled s (drain env s) \<and>
     ((\<forall>t \<in> set (microtasks s). quiet_task t) \<longrightarrow> errors_logged (drain env s) = errors_logged s)"
proof (induction env s rule: drain.induct)
  case (1 env s)
  show ?case
  proof (cases "microtasks s")
    case Nil
    then show ?thesis by (simp add: drain_Nil keeps_fulfilled_refl)
  next
    case (Cons t q)
    let ?s0 = "s\<lparr>microtasks := q\<rparr>"
    let ?s1 = "run_task env t ?s0"
    from "1.prems" Cons have ot: "outer_task t" and oq: "\<forall>t' \<in> set (microtasks ?s0). outer_task t'"
      by simp_all
    from run_outer_task(3)[OF ot oq] have o1: "\<forall>t' \<in> set (microtasks ?s1). outer_task t'" .
    from "1.IH"[OF Cons o1]
    have ih: "presets_map (drain env ?s1) = presets_map ?s1"
      "keeps_fulfilled ?s1 (drain env ?s1)"
      "(\<forall>t \<in> set (microtasks ?s1). quiet_task t) \<longrightarrow>
         errors_logged (drain env ?s1) = errors_logged ?s1"
      by simp_all
    have d: "drain env s = drain env ?s1" by (rule drain_Cons[OF Cons])
    have pm: "presets_map (drain env s) = presets_map s"
      using d ih(1) run_outer_task(1)[OF ot, of env ?s0] by simp
    have "keeps_fulfilled s ?s0" by (rule keeps_fulfilled_same) simp
    from keeps_fulfilled_trans[OF this run_outer_task(2)[OF ot, of ?s0 env]]
    have "keeps_fulfilled s ?s1" .
    from keeps_fulfilled_trans[OF this ih(2)] d have kf: "keeps_fulfilled s (drain env s)"
      by simp
    have lg: "errors_logged (drain env s) = errors_logged s"
      if "\<forall>t \<in> set (microtasks s). quiet_task t"
    proof -
      from that Cons have qt: "quiet_task t" and qq: "\<forall>t' \<in> set (microtasks ?s0). quiet_task t'"
        by simp_all
      from run_outer_task(4)[OF ot qt qq, of env] ih(3) d show ?thesis by simp
    qed
    from pm kf lg show ?thesis by simp
  qed
qed

lemma resolved_presets_kept:
  assumes "presets_map s' = presets_map s" and "keeps_fulfilled s s'"
    and "resolved_presets key s = Some v"
  shows "resolved_presets key s' = Some v"
  using assms
  by (auto simp: resolved_presets_def keeps_fulfilled_def split: option.splits if_splits promise.splits)

text \<open>
  The turn of a response, for a request that is waiting: the callback of the request
  runs on an empty queue, then the queue is run until it is empty.
\<close>

lemma turn_response:
  assumes "microtasks s = []" and "i < length (requests s)" and "\<not> req_done (requests s ! i)"
  shows "turn env s (Response i res) =
     drain env (run_task env
       (case req_then (requests s ! i) of
          ThenParse c \<Rightarrow> RunParse c res
        | ThenMerge ty orig np \<Rightarrow> RunMergeInner ty orig np res)
       (s\<lparr>requests := (requests s)[i := (requests s ! i)\<lparr>req_done := True\<rparr>]\<rparr>))"
proof -
  let ?t = "case req_then (requests s ! i) of
          ThenParse c \<Rightarrow> RunParse c res
        | ThenMerge ty orig np \<Rightarrow> RunMergeInner ty orig np res"
  let ?s0 = "s\<lparr>requests := (requests s)[i := (requests s ! i)\<lparr>req_done := True\<rparr>],
                microtasks := microtasks s @ [?t]\<rparr>"
  have st: "step env s (Response i res) = ?s0" using assms by simp
  have m: "microtasks ?s0 = ?t # []" using assms by simp
  have "?s0\<lparr>microtasks := []\<rparr> = s\<lparr>requests := (requests s)[i := (requests s ! i)\<lparr>req_done := True\<rparr>]\<rparr>"
    using assms by simp
  with drain_Cons[OF m, of env] st show ?thesis by (simp add: turn_def)
qed

text \<open>The state in which the rejection handler has run for the request's callback.\<close>

lemma failed_fetch_state:
  assumes "microtasks s = []"
  shows "run_task env
       (case rt of ThenParse c \<Rightarrow> RunParse c (Inl r)
        | ThenMerge ty orig np \<Rightarrow> RunMergeInner ty orig np (Inl r))
       (s\<lparr>requests := rs\<rparr>)
     = settle (then_target rt) (Inr Undefined)
         (s\<lparr>requests := rs, errors_logged := errors_logged s @ [error_line r]\<rparr>)"
  by (cases rt) (simp_all add: handleLoadError_def Let_def error_line_def)

lemma failed_parse_state:
  assumes "microtasks s = []" and "JSON_parse env body = Inl e"
  shows "run_task env
       (case rt of ThenParse c \<Rightarrow> RunParse c (Inr body)
        | ThenMerge ty orig np \<Rightarrow> RunMergeInner ty orig np (Inr body))
       (s\<lparr>requests := rs\<rparr>)
     = settle (then_target rt) (Inl e) (s\<lparr>requests := rs\<rparr>)"
  using assms by (cases rt) (simp_all add: parse_callback_def merge_inner_def)

lemma fetch_failure:
  assumes "microtasks s = []" and "i < length (requests s)" and "\<not> req_done (requests s ! i)"
  shows "errors_logged (turn env s (Response i (Inl r))) = errors_logged s @ [error_line r]"
    and "presets_map (turn env s (Response i (Inl r))) = presets_map s"
    and "keeps_fulfilled s (turn env s (Response i (Inl r)))"
    and "req_then (requests s ! i) = ThenParse c \<Longrightarrow> c < length (promises s) \<Longrightarrow>
         promises s ! c = Pending es \<Longrightarrow>
         c < length (promises (turn env s (Response i (Inl r)))) \<and>
         promises (turn env s (Response i (Inl r))) ! c = Fulfilled Undefined"
proof -
  let ?rs = "(requests s)[i := (requests s ! i)\<lparr>req_done := True\<rparr>]"
  let ?s0 = "s\<lparr>requests := ?rs, errors_logged := errors_logged s @ [error_line r]\<rparr>"
  let ?c = "then_target (req_then (requests s ! i))"
  have run: "run_task env
       (case req_then (requests s ! i) of ThenParse c \<Rightarrow> RunParse c (Inl r)
        | ThenMerge ty orig np \<Rightarrow> RunMergeInner ty orig np (Inl r))
       (s\<lparr>requests := ?rs\<rparr>) = settle ?c (Inr Undefined) ?s0"
    by (rule failed_fetch_state[OF assms(1)])
  let ?s1 = "settle ?c (Inr Undefined) ?s0"
  from turn_response[OF assms, of env "Inl r"] run
  have t: "turn env s (Response i (Inl r)) = drain env ?s1" by simp
  have "\<forall>t \<in> set (microtasks ?s0). quiet_task t" using assms(1) by simp
  from settle_quiet[OF this] have q1: "\<forall>t \<in> set (microtasks ?s1). quiet_task t" .
  then have o1: "\<forall>t \<in> set (microtasks ?s1). outer_task t" by (simp add: quiet_is_outer)
  from drain_outer_tasks[OF o1, of env] q1
  have d: "presets_map (drain env ?s1) = presets_map ?s1" "keeps_fulfilled ?s1 (drain env ?s1)"
    "errors_logged (drain env ?s1) = errors_logged ?s1"
    by simp_all
  show "errors_logged (turn env s (Response i (Inl r))) = errors_logged s @ [error_line r]"
    using t d(3) by simp
  show "presets_map (turn env s (Response i (Inl r))) = presets_map s"
    using t d(1) by simp
  have "keeps_fulfilled s ?s0" by (rule keeps_fulfilled_same) simp
  from keeps_fulfilled_trans[OF this keeps_fulfilled_settle] have "keeps_fulfilled s ?s1" .
  from keeps_fulfilled_trans[OF this d(2)] t
  show "keeps_fulfilled s (turn env s (Response i (Inl r)))" by simp
  show "c < length (promises (turn env s (Response i (Inl r)))) \<and>
        promises (turn env s (Response i (Inl r))) ! c = Fulfilled Undefined"
    if "req_then (requests s ! i) = ThenParse c" and "c < length (promises s)"
      and "promises s ! c = Pending es"
  proof -
    from that(1) have "?c = c" by simp
    with that have "c < length (promises ?s1) \<and> promises ?s1 ! c = Fulfilled Undefined"
      by (simp add: settle_def)
    with d(2) t show ?thesis by (simp add: keeps_fulfilled_def)
  qed
qed

lemma parse_failure:
  assumes "microtasks s = []" and "i < length (requests s)" and "\<not> req_done (requests s ! i)"
    and "JSON_parse env body = Inl e"
  shows "presets_map (turn env s (Response i (Inr body))) = presets_map s"
    and "keeps_fulfilled s (turn env s (Response i (Inr body)))"
proof -
  let ?rs = "(requests s)[i := (requests s ! i)\<lparr>req_done := True\<rparr>]"
  let ?s0 = "s\<lparr>requests := ?rs\<rparr>"
  let ?c = "then_target (req_then (requests s ! i))"
  have run: "run_task env
       (case req_then (requests s ! i) of ThenParse c \<Rightarrow> RunParse c (Inr body)
        | ThenMerge ty orig np \<Rightarrow> RunMergeInner ty orig np (Inr body))
       ?s0 = settle ?c (Inl e) ?s0"
    by (rule failed_parse_state[OF assms(1) assms(4)])
  let ?s1 = "settle ?c (Inl e) ?s0"
  from turn_response[OF assms(1-3), of env "Inr body"] run
  have t: "turn env s (Response i (Inr body)) = drain env ?s1" by simp
  have "\<forall>t \<in> set (microtasks ?s0). outer_task t" using assms(1) by simp
  from settle_outer[OF this] have o1: "\<forall>t \<in> set (microtasks ?s1). outer_task t" .
  from drain_outer_tasks[OF o1, of env]
  have d: "presets_map (drain env ?s1) = presets_map ?s1" "keeps_fulfilled ?s1 (drain env ?s1)"
    by simp_all
  show "presets_map (turn env s (Response i (Inr body))) = presets_map s"
    using t d(1) by simp
  have "keeps_fulfilled s ?s0" by (rule keeps_fulfilled_same) simp
  from keeps_fulfilled_trans[OF this keeps_fulfilled_settle] have "keeps_fulfilled s ?s1" .
  from keeps_fulfilled_trans[OF this d(2)] t
  show "keeps_fulfilled s (turn env s (Response i (Inr body)))" by simp
qed

lemma first_fetch_pending_facts:
  "microtasks first_fetch_pending = []"
  "0 < length (requests first_fetch_pending)"
  "\<not> req_done (requests first_fetch_pending ! 0)"
  "presets_map first_fetch_pending ''t1'' = Some 0"
  "req_then (requests first_fetch_pending ! 0) = ThenParse 0"
  "0 < length (promises first_fetch_pending)"
  "promises first_fetch_pending ! 0 = Pending []"
  "errors_logged first_fetch_pending = []"
  by (simp_all add: first_fetch_pending_def exec_defs init_def proto_members_def)

lemma second_fetch_pending_facts:
  "microtasks second_fetch_pending = []"
  "1 < length (requests second_fetch_pending)"
  "\<not> req_done (requests second_fetch_pending ! 1)"
  "resolved_presets ''t1'' second_fetch_pending
     = Some (Arr [Item (example_preset ''a'' (Some False))])"
  "errors_logged second_fetch_pending = []"
  by (simp_all add: second_fetch_pending_def after_first_fetch_def exec_defs init_def
      example_env_def proto_members_def resolved_presets_def)

text \<open>
  C5, as the specification states it, says that for every type a fetch or parse failure
  is routed to the error handler and leaves the visible value of the type in place rather
  than an undefined one. For a type without a cache entry the promise stored by
  \<open>registerPreset\<close> (line 81) is the one a failed fetch fulfils with \<^verbatim>\<open>undefined\<close>:
  the entry was absent before and holds an undefined value afterwards. And a text that
  fails to parse throws inside the fulfilment callback, which rejects the child promise
  and does not reach the rejection handler of the same \<^verbatim>\<open>then\<close>: nothing is logged.
\<close>

theorem registerPreset_failure_counterexample:
  "presets_map (init Map.empty Map.empty) ''t1'' = None \<and>
   resolved_presets ''t1''
     (foldl (turn example_env) (init Map.empty Map.empty)
        [RegisterPreset ''t1'' ''u1'', Response 0 (Inl (RString ''404''))]) = Some Undefined \<and>
   JSON_parse example_env ''{'' = Inl (RError ''Unexpected token'') \<and>
   errors_logged
     (foldl (turn example_env) (init Map.empty Map.empty)
        [RegisterPreset ''t1'' ''u1'', Response 0 (Inr ''[a]''),
         RegisterPreset ''t1'' ''u2'', Response 1 (Inr ''{'')]) = []"
  by (simp add: exec_defs resolved_presets_def init_def example_env_def proto_members_def)

text \<open>
  C5, amended. Every fetch of the manager is issued by \<open>registerPreset\<close> (line 67 or
  line 81). Take a state between two turns of the event loop and a fetch that has not
  returned. When the fetch fails, the reason is given to the error handler, which logs
  exactly one line, and no cache entry is updated: \<^verbatim>\<open>presets_\<close> holds the promises it
  held, and every type whose promise was fulfilled keeps its value. For a type registered
  for the first time the entry is the promise stored at registration; the failure fulfils
  it with \<^verbatim>\<open>undefined\<close>, the value the handler returns. When the fetched text fails to
  parse, no cache entry is updated either, and every type whose promise was fulfilled
  keeps its value.
\<close>

theorem registerPreset_fetch_failure:
  assumes "microtasks s = []" and "i < length (requests s)" and "\<not> req_done (requests s ! i)"
  shows "errors_logged (turn env s (Response i (Inl r))) =
           errors_logged s @
             [''Failed to load presets. Reason: '' @
              (case r of RString str \<Rightarrow> str | RError message \<Rightarrow> message
               | ROther \<Rightarrow> ''Unspecified error.'')] \<and>
         presets_map (turn env s (Response i (Inl r))) = presets_map s \<and>
         (\<forall>key v. resolved_presets key s = Some v \<longrightarrow>
            resolved_presets key (turn env s (Response i (Inl r))) = Some v) \<and>
         (\<forall>key c es. presets_map s key = Some c \<and> req_then (requests s ! i) = ThenParse c \<and>
            c < length (promises s) \<and> promises s ! c = Pending es \<longrightarrow>
            resolved_presets key (turn env s (Response i (Inl r))) = Some Undefined) \<and>
         (\<forall>body e. JSON_parse env body = Inl e \<longrightarrow>
            presets_map (turn env s (Response i (Inr body))) = presets_map s \<and>
            (\<forall>key v. resolved_presets key s = Some v \<longrightarrow>
               resolved_presets key (turn env s (Response i (Inr body))) = Some v))"
proof (intro conjI allI impI)
  note ff = fetch_failure[OF assms, where env = env and r = r]
  show "errors_logged (turn env s (Response i (Inl r))) =
           errors_logged s @
             [''Failed to load presets. Reason: '' @
              (case r of RString str \<Rightarrow> str | RError message \<Rightarrow> message
               | ROther \<Rightarrow> ''Unspecified error.'')]"
    using ff(1) by (simp add: error_line_def)
  show "presets_map (turn env s (Response i (Inl r))) = presets_map s"
    by (rule ff(2))
  show "resolved_presets key (turn env s (Response i (Inl r))) = Some v"
    if "resolved_presets key s = Some v" for key v
    by (rule resolved_presets_kept[OF ff(2) ff(3) that])
  show "resolved_presets key (turn env s (Response i (Inl r))) = Some Undefined"
    if "presets_map s key = Some c \<and> req_then (requests s ! i) = ThenParse c \<and>
            c < length (promises s) \<and> promises s ! c = Pending es" for key c es
  proof -
    from that ff(4)[where c = c and es = es]
    have "c < length (promises (turn env s (Response i (Inl r))))"
      "promises (turn env s (Response i (Inl r))) ! c = Fulfilled Undefined"
      by simp_all
    with that ff(2) show ?thesis by (simp add: resolved_presets_def)
  qed
  show "presets_map (turn env s (Response i (Inr body))) = presets_map s"
    if "JSON_parse env body = Inl e" for body e
    by (rule parse_failure(1)[OF assms that])
  show "resolved_presets key (turn env s (Response i (Inr body))) = Some v"
    if "JSON_parse env body = Inl e" and "resolved_presets key s = Some v" for body e key v
    by (rule resolved_presets_kept[OF parse_failure(1)[OF assms that(1)]
          parse_failure(2)[OF assms that(1)] that(2)])
qed

theorem registerPreset_fetch_failure_witness:
  "microtasks first_fetch_pending = [] \<and> 0 < length (requests first_fetch_pending) \<and>
   \<not> req_done (requests first_fetch_pending ! 0) \<and>
   presets_map first_fetch_pending ''t1'' = Some 0 \<and>
   req_then (requests first_fetch_pending ! 0) = ThenParse 0 \<and>
   0 < length (promises first_fetch_pending) \<and> promises first_fetch_pending ! 0 = Pending [] \<and>
   errors_logged (turn example_env first_fetch_pending (Response 0 (Inl (RString ''404''))))
     = [''Failed to load presets. Reason: 404''] \<and>
   resolved_presets ''t1'' (turn example_env first_fetch_pending (Response 0 (Inl (RString ''404''))))
     = Some Undefined \<and>
   microtasks second_fetch_pending = [] \<and> 1 < length (requests second_fetch_pending) \<and>
   \<not> req_done (requests second_fetch_pending ! 1) \<and>
   resolved_presets ''t1'' second_fetch_pending
     = Some (Arr [Item (example_preset ''a'' (Some False))]) \<and>
   errors_logged (turn example_env second_fetch_pending (Response 1 (Inl ROther)))
     = [''Failed to load presets. Reason: Unspecified error.''] \<and>
   resolved_presets ''t1'' (turn example_env second_fetch_pending (Response 1 (Inl ROther)))
     = Some (Arr [Item (example_preset ''a'' (Some False))]) \<and>
   JSON_parse example_env ''{'' = Inl (RError ''Unexpected token'') \<and>
   resolved_presets ''t1'' (turn example_env second_fetch_pending (Response 1 (Inr ''{'')))
     = Some (Arr [Item (example_preset ''a'' (Some False))])"
proof -
  have pe: "JSON_parse example_env ''{'' = Inl (RError ''Unexpected token'')"
    by (simp add: example_env_def)
  note a = registerPreset_fetch_failure [OF first_fetch_pending_facts(1-3), of example_env
      "RString ''404''"]
  note b = registerPreset_fetch_failure [OF second_fetch_pending_facts(1-3), of example_env
      ROther]
  from a first_fetch_pending_facts
  have a1: "errors_logged (turn example_env first_fetch_pending (Response 0 (Inl (RString ''404''))))
     = [''Failed to load presets. Reason: 404'']"
    and a2: "resolved_presets ''t1''
       (turn example_env first_fetch_pending (Response 0 (Inl (RString ''404'')))) = Some Undefined"
    by simp_all
  from b second_fetch_pending_facts pe
  have b1: "errors_logged (turn example_env second_fetch_pending (Response 1 (Inl ROther)))
     = [''Failed to load presets. Reason: Unspecified error.'']"
    and b2: "resolved_presets ''t1'' (turn example_env second_fetch_pending (Response 1 (Inl ROther)))
     = Some (Arr [Item (example_preset ''a'' (Some False))])"
    and b3: "resolved_presets ''t1'' (turn example_env second_fetch_pending (Response 1 (Inr ''{'')))
     = Some (Arr [Item (example_preset ''a'' (Some False))])"
    by simp_all
  from a1 a2 b1 b2 b3 pe first_fetch_pending_facts second_fetch_pending_facts
  show ?thesis by simp
qed

section \<open>Which promise getPresets returns after a registration\<close>

text \<open>
  C8, as the specification states it, says that after a \<open>registerPreset\<close> call the
  cache entry seen by \<open>getPresets\<close> is always the most recently constructed promise for
  the key. After a second registration of a type whose first promise is fulfilled, the
  outer callback has constructed the new promise (number 2) and issued its fetch, but
  line 74 stores it only when that fetch has returned and parsed: until then
  \<open>getPresets\<close> returns the first promise (number 0).
\<close>

theorem registerPreset_latest_counterexample:
  "latest_constructed ''t1''
     (foldl (turn example_env) (init Map.empty Map.empty)
        [RegisterPreset ''t1'' ''u1'', Response 0 (Inr ''[a]''), RegisterPreset ''t1'' ''u2''])
     = Some 2 \<and>
   fst (getPresets example_env ''t1'' False
     (foldl (turn example_env) (init Map.empty Map.empty)
        [RegisterPreset ''t1'' ''u1'', Response 0 (Inr ''[a]''), RegisterPreset ''t1'' ''u2'']))
     = Inr (Own 0)"
  by (simp add: exec_defs latest_constructed_def init_def example_env_def proto_members_def)

lemma supersedes_first:
  "get_prop (presets_map s) key = Missing \<and> \<not> requested s url \<and> \<not> presets_proto_replaced s \<longrightarrow>
      fst (getPresets env key ap (snd (registerPreset key url s)))
        = Inr (Own (length (promises s))) \<and>
      latest_constructed key (snd (registerPreset key url s)) = Some (length (promises s))"
  by (intro impI, elim conjE)
    (simp add: registerPreset_def getPresets_def set_preset_def Let_def latest_constructed_def)

lemma supersedes_keep:
  "presets_map s key = Some p \<longrightarrow>
      fst (getPresets env key ap (snd (registerPreset key url s))) = Inr (Own p)"
  by (simp add: getPresets_def registerPreset_def Let_def get_prop_def)

lemma supersedes_later:
  "microtasks s = [] \<and> presets_map s key = Some p \<and> p < length (promises s) \<and>
      promises s ! p = Fulfilled v \<and> \<not> requested s url \<and>
      JSON_parse env body = Inr w \<longrightarrow>
      (let s1 = turn env s (RegisterPreset key url);
           s2 = turn env s1 (Response (length (requests s)) (Inr body))
       in fst (getPresets env key ap s1) = Inr (Own p) \<and>
          latest_constructed key s1 = Some (Suc (length (promises s))) \<and>
          fst (getPresets env key ap s2) = Inr (Own (Suc (length (promises s)))) \<and>
          latest_constructed key s2 = Some (Suc (length (promises s))))"
  by (intro impI, elim conjE) (cases w; simp add: exec_defs latest_constructed_def)

text \<open>
  C8, amended. For a key without a cache entry (\<^verbatim>\<open>this.presets_[key]\<close> is undefined),
  \<open>registerPreset\<close> with a URL that does not read as requested stores the promise it
  constructs, and \<open>getPresets\<close> returns it: the most recently constructed one. For a key
  that has an entry, \<open>getPresets\<close> returns the earlier promise right after
  \<open>registerPreset\<close>. When that entry is fulfilled and the registration is made between
  two turns of the event loop, \<open>getPresets\<close> still returns the earlier promise after the
  turn in which the newer promise has been constructed; the newer promise supersedes the
  earlier one in what \<open>getPresets\<close> returns once its fetch has returned a text that
  parses (to an array or to \<^verbatim>\<open>null\<close>, as the cast of line 68 has it).
\<close>

theorem registerPreset_supersedes:
  "(get_prop (presets_map s) key = Missing \<and> \<not> requested s url \<and> \<not> presets_proto_replaced s \<longrightarrow>
      fst (getPresets env key ap (snd (registerPreset key url s)))
        = Inr (Own (length (promises s))) \<and>
      latest_constructed key (snd (registerPreset key url s)) = Some (length (promises s))) \<and>
   (\<forall>p. presets_map s key = Some p \<longrightarrow>
      fst (getPresets env key ap (snd (registerPreset key url s))) = Inr (Own p)) \<and>
   (\<forall>p v body w.
      microtasks s = [] \<and> presets_map s key = Some p \<and> p < length (promises s) \<and>
      promises s ! p = Fulfilled v \<and> \<not> requested s url \<and>
      JSON_parse env body = Inr w \<longrightarrow>
      (let s1 = turn env s (RegisterPreset key url);
           s2 = turn env s1 (Response (length (requests s)) (Inr body))
       in fst (getPresets env key ap s1) = Inr (Own p) \<and>
          latest_constructed key s1 = Some (Suc (length (promises s))) \<and>
          fst (getPresets env key ap s2) = Inr (Own (Suc (length (promises s)))) \<and>
          latest_constructed key s2 = Some (Suc (length (promises s)))))"
  by (intro conjI allI supersedes_first supersedes_keep supersedes_later)

theorem registerPreset_supersedes_witness:
  "get_prop (presets_map (init Map.empty Map.empty)) ''t1'' = Missing \<and>
   \<not> requested (init Map.empty Map.empty) ''u1'' \<and>
   \<not> presets_proto_replaced (init Map.empty Map.empty) \<and>
   fst (getPresets example_env ''t1'' False
          (snd (registerPreset ''t1'' ''u1'' (init Map.empty Map.empty)))) = Inr (Own 0) \<and>
   latest_constructed ''t1'' (snd (registerPreset ''t1'' ''u1'' (init Map.empty Map.empty)))
     = Some 0 \<and>
   microtasks after_first_fetch = [] \<and>
   presets_map after_first_fetch ''t1'' = Some 0 \<and> 0 < length (promises after_first_fetch) \<and>
   promises after_first_fetch ! 0 = Fulfilled (Arr [Item (example_preset ''a'' (Some False))]) \<and>
   \<not> requested after_first_fetch ''u2'' \<and>
   fst (getPresets example_env ''t1'' False
          (snd (registerPreset ''t1'' ''u2'' after_first_fetch))) = Inr (Own 0) \<and>
   JSON_parse example_env ''[b]'' = Inr (Some [example_preset ''b'' (Some True)]) \<and>
   fst (getPresets example_env ''t1'' False
          (turn example_env after_first_fetch (RegisterPreset ''t1'' ''u2''))) = Inr (Own 0) \<and>
   latest_constructed ''t1''
          (turn example_env after_first_fetch (RegisterPreset ''t1'' ''u2'')) = Some 2 \<and>
   fst (getPresets example_env ''t1'' False
          (turn example_env (turn example_env after_first_fetch (RegisterPreset ''t1'' ''u2''))
             (Response 1 (Inr ''[b]'')))) = Inr (Own 2) \<and>
   latest_constructed ''t1''
          (turn example_env (turn example_env after_first_fetch (RegisterPreset ''t1'' ''u2''))
             (Response 1 (Inr ''[b]''))) = Some 2"
proof -
  have i: "get_prop (presets_map (init Map.empty Map.empty)) ''t1'' = Missing"
    "\<not> requested (init Map.empty Map.empty) ''u1''"
    "\<not> presets_proto_replaced (init Map.empty Map.empty)"
    "length (promises (init Map.empty Map.empty)) = 0"
    by (simp_all add: init_def get_prop_def requested_def proto_members_def)
  have pb: "JSON_parse example_env ''[b]'' = Inr (Some [example_preset ''b'' (Some True)])"
    by (simp add: example_env_def)
  from registerPreset_supersedes [of "init Map.empty Map.empty" "''t1''" "''u1''" example_env False]
    i
  have a: "fst (getPresets example_env ''t1'' False
          (snd (registerPreset ''t1'' ''u1'' (init Map.empty Map.empty)))) = Inr (Own 0)"
    "latest_constructed ''t1'' (snd (registerPreset ''t1'' ''u1'' (init Map.empty Map.empty)))
       = Some 0"
    by simp_all
  note k = registerPreset_supersedes [of after_first_fetch "''t1''" "''u2''" example_env False,
      THEN conjunct2, THEN conjunct1, THEN spec, of 0]
  note l = registerPreset_supersedes [of after_first_fetch "''t1''" "''u2''" example_env False,
      THEN conjunct2, THEN conjunct2, THEN spec, THEN spec, THEN spec, THEN spec,
      of 0 "Arr [Item (example_preset ''a'' (Some False))]" "''[b]''"
        "Some [example_preset ''b'' (Some True)]"]
  from k after_first_fetch_facts
  have b0: "fst (getPresets example_env ''t1'' False
          (snd (registerPreset ''t1'' ''u2'' after_first_fetch))) = Inr (Own 0)"
    by simp
  from l after_first_fetch_facts pb
  have b: "fst (getPresets example_env ''t1'' False
          (turn example_env after_first_fetch (RegisterPreset ''t1'' ''u2''))) = Inr (Own 0)"
    "latest_constructed ''t1''
          (turn example_env after_first_fetch (RegisterPreset ''t1'' ''u2'')) = Some 2"
    "fst (getPresets example_env ''t1'' False
          (turn example_env (turn example_env after_first_fetch (RegisterPreset ''t1'' ''u2''))
             (Response 1 (Inr ''[b]'')))) = Inr (Own 2)"
    "latest_constructed ''t1''
          (turn example_env (turn example_env after_first_fetch (RegisterPreset ''t1'' ''u2''))
             (Response 1 (Inr ''[b]''))) = Some 2"
    by (simp_all add: Let_def)
  from i a b0 b pb after_first_fetch_facts show ?thesis by simp
qed

section \<open>initPreset: the list of a layer\<close>

lemma no_key_names: "''undefined'' \<notin> proto_members" "''null'' \<notin> proto_members"
  by (simp_all add: proto_members_def)

lemma layerPresets_of_Missing:
  "get_prop (PRESETS s) (filter_name env ident) = Missing \<Longrightarrow>
   layerPresets_of env ident s = Inr (Arr [])"
  by (simp add: layerPresets_of_def)

lemma layerPresets_of_Own:
  "get_prop (PRESETS s) (filter_name env ident) = Own ps \<Longrightarrow>
   layerPresets_of env ident s =
     Inr (Arr (if ps = [] then [] else map Item ps @ [Item (restore_record env)]))"
  by (simp add: layerPresets_of_def addDefault_def)

lemma initPreset_Inr:
  "layerPresets_of env ident s = Inr v \<Longrightarrow>
   initPreset env ident ap s =
     (None,
      set_preset ident (length (promises s))
        (s\<lparr>promises := promises s @ [Pending []],
           loads := loads s @
             [\<lparr>load_id = ident, load_apply = ap, load_presets = v,
               load_promise = length (promises s), load_done = False\<rparr>],
           constructed := constructed s @ [(ident, length (promises s))]\<rparr>))"
  by (simp add: initPreset_def Let_def)

text \<open>
  What \<open>initPreset\<close> does when the defect below is out of reach, that is when the
  layer has a filter key that names no member of \<^verbatim>\<open>Object.prototype\<close>, or when it has
  none and the settings hold nothing under the names \<^verbatim>\<open>undefined\<close> and \<^verbatim>\<open>null\<close>:
  it creates a pending promise, stores it for the id and asks the feature-action loader;
  the list its callback will resolve the promise with is the list stored under the filter
  key, with the restore-to-default record appended if and only if that list is not empty,
  and the empty list when there is no filter key or nothing is stored under it.
\<close>

lemma initPreset_ordinary_keys:
  assumes "PRESETS s ''undefined'' = None" and "PRESETS s ''null'' = None"
    and "\<forall>l k. getLayer env ident = Some l \<and> filterable l \<and> getFilterKey l = Some k
           \<longrightarrow> k \<notin> proto_members"
  shows "(getLayer env ident = None \<longrightarrow> layerPresets_of env ident s = Inr (Arr []))"
    and "(\<forall>l. getLayer env ident = Some l \<and> \<not> filterable l \<longrightarrow>
           layerPresets_of env ident s = Inr (Arr []))"
    and "(\<forall>l. getLayer env ident = Some l \<and> filterable l \<and> getFilterKey l = None \<longrightarrow>
           layerPresets_of env ident s = Inr (Arr []))"
    and "(\<forall>l k. getLayer env ident = Some l \<and> filterable l \<and> getFilterKey l = Some k \<and>
           PRESETS s k = None \<longrightarrow> layerPresets_of env ident s = Inr (Arr []))"
    and "(\<forall>l k ps. getLayer env ident = Some l \<and> filterable l \<and> getFilterKey l = Some k \<and>
           PRESETS s k = Some ps \<longrightarrow>
           layerPresets_of env ident s =
             Inr (Arr (if ps = [] then [] else map Item ps @ [Item (restore_record env)])))"
    and "\<exists>v. layerPresets_of env ident s = Inr v \<and>
           initPreset env ident ap s =
             (None,
              set_preset ident (length (promises s))
                (s\<lparr>promises := promises s @ [Pending []],
                   loads := loads s @
                     [\<lparr>load_id = ident, load_apply = ap, load_presets = v,
                       load_promise = length (promises s), load_done = False\<rparr>],
                   constructed := constructed s @ [(ident, length (promises s))]\<rparr>))"
proof -
  from assms(1,2) no_key_names
  have un: "get_prop (PRESETS s) ''undefined'' = Missing" "get_prop (PRESETS s) ''null'' = Missing"
    by (simp_all add: get_prop_Missing)
  show a: "getLayer env ident = None \<longrightarrow> layerPresets_of env ident s = Inr (Arr [])"
  proof
    assume "getLayer env ident = None"
    then have "filter_name env ident = ''undefined''" by (simp add: filter_name_def)
    with un(1) show "layerPresets_of env ident s = Inr (Arr [])"
      by (simp only: layerPresets_of_Missing)
  qed
  show b: "\<forall>l. getLayer env ident = Some l \<and> \<not> filterable l \<longrightarrow>
           layerPresets_of env ident s = Inr (Arr [])"
  proof (intro allI impI)
    fix l assume "getLayer env ident = Some l \<and> \<not> filterable l"
    then have "filter_name env ident = ''undefined''" by (simp add: filter_name_def)
    with un(1) show "layerPresets_of env ident s = Inr (Arr [])"
      by (simp only: layerPresets_of_Missing)
  qed
  show c: "\<forall>l. getLayer env ident = Some l \<and> filterable l \<and> getFilterKey l = None \<longrightarrow>
           layerPresets_of env ident s = Inr (Arr [])"
  proof (intro allI impI)
    fix l assume "getLayer env ident = Some l \<and> filterable l \<and> getFilterKey l = None"
    then have "filter_name env ident = ''null''" by (simp add: filter_name_def)
    with un(2) show "layerPresets_of env ident s = Inr (Arr [])"
      by (simp only: layerPresets_of_Missing)
  qed
  show d: "\<forall>l k. getLayer env ident = Some l \<and> filterable l \<and> getFilterKey l = Some k \<and>
           PRESETS s k = None \<longrightarrow> layerPresets_of env ident s = Inr (Arr [])"
  proof (intro allI impI)
    fix l k assume h: "getLayer env ident = Some l \<and> filterable l \<and> getFilterKey l = Some k \<and>
           PRESETS s k = None"
    then have n: "filter_name env ident = k" by (simp add: filter_name_def)
    from h assms(3) have "k \<notin> proto_members" by blast
    with h have "get_prop (PRESETS s) k = Missing" by (simp add: get_prop_Missing)
    with n show "layerPresets_of env ident s = Inr (Arr [])"
      by (simp only: layerPresets_of_Missing)
  qed
  show e: "\<forall>l k ps. getLayer env ident = Some l \<and> filterable l \<and> getFilterKey l = Some k \<and>
           PRESETS s k = Some ps \<longrightarrow>
           layerPresets_of env ident s =
             Inr (Arr (if ps = [] then [] else map Item ps @ [Item (restore_record env)]))"
  proof (intro allI impI)
    fix l k ps assume h: "getLayer env ident = Some l \<and> filterable l \<and> getFilterKey l = Some k \<and>
           PRESETS s k = Some ps"
    then have n: "filter_name env ident = k" by (simp add: filter_name_def)
    from h have "get_prop (PRESETS s) k = Own ps" by (simp add: get_prop_Own)
    with n show "layerPresets_of env ident s =
             Inr (Arr (if ps = [] then [] else map Item ps @ [Item (restore_record env)]))"
      by (simp only: layerPresets_of_Own)
  qed
  have "\<exists>v. layerPresets_of env ident s = Inr v"
  proof (cases "getLayer env ident")
    case None
    with a show ?thesis by simp
  next
    case (Some l)
    show ?thesis
    proof (cases "filterable l")
      case False
      with Some b show ?thesis by simp
    next
      case True
      show ?thesis
      proof (cases "getFilterKey l")
        case None
        with Some True c show ?thesis by simp
      next
        case k: (Some k)
        show ?thesis
        proof (cases "PRESETS s k")
          case None
          with Some True k d show ?thesis by simp
        next
          case ps: (Some ps)
          with Some True k e show ?thesis by simp
        qed
      qed
    qed
  qed
  then obtain v where v: "layerPresets_of env ident s = Inr v" ..
  from initPreset_Inr[OF v, of ap] v
  show "\<exists>v. layerPresets_of env ident s = Inr v \<and>
           initPreset env ident ap s =
             (None,
              set_preset ident (length (promises s))
                (s\<lparr>promises := promises s @ [Pending []],
                   loads := loads s @
                     [\<lparr>load_id = ident, load_apply = ap, load_presets = v,
                       load_promise = length (promises s), load_done = False\<rparr>],
                   constructed := constructed s @ [(ident, length (promises s))]\<rparr>))"
    by blast
qed

text \<open>
  C9 says that \<open>initPreset\<close> falls back to an empty list when there is no layer for the
  id. Line 141 reads \<^verbatim>\<open>presets[filterKey]\<close> also when \<^verbatim>\<open>filterKey\<close> was never assigned,
  which is the property named \<^verbatim>\<open>undefined\<close>. With no layer for the id \<open>layer2\<close> and a
  list stored in the settings under that name, \<open>initPreset\<close> takes the stored list,
  appends the restore-to-default record, and the promise it creates will be resolved with
  the two records. In the same way a layer whose filter key is \<^verbatim>\<open>toString\<close>, with
  nothing stored in the settings, reads the inherited member of that name in place of a
  list (its \<^verbatim>\<open>length\<close> is 0, so that \<^verbatim>\<open>addDefault\<close> is not called).
\<close>

theorem initPreset_reads_undefined_key:
  "getLayer example_env ''layer2'' = None \<and>
   layerPresets_of example_env ''layer2''
     (init [''undefined'' \<mapsto> [example_preset ''b'' (Some True)]] Map.empty)
     = Inr (Arr [Item (example_preset ''b'' (Some True)), Item (example_preset ''restore'' None)]) \<and>
   loads (snd (initPreset example_env ''layer2'' False
     (init [''undefined'' \<mapsto> [example_preset ''b'' (Some True)]] Map.empty)))
     = [\<lparr>load_id = ''layer2'', load_apply = False,
         load_presets = Arr [Item (example_preset ''b'' (Some True)),
                             Item (example_preset ''restore'' None)],
         load_promise = 0, load_done = False\<rparr>] \<and>
   layerPresets_of
     (example_env\<lparr>getLayer := (\<lambda>ident. Some \<lparr>filterable = True, getFilterKey = Some ''toString''\<rparr>)\<rparr>)
     ''layer1'' (init Map.empty Map.empty) = Inr (Member ''toString'')"
proof -
  have a: "getLayer example_env ''layer2'' = None"
    by (simp add: example_env_def)
  have b: "layerPresets_of example_env ''layer2''
     (init [''undefined'' \<mapsto> [example_preset ''b'' (Some True)]] Map.empty)
     = Inr (Arr [Item (example_preset ''b'' (Some True)), Item (example_preset ''restore'' None)])"
    by (simp add: layerPresets_of_def filter_name_def get_prop_def addDefault_def
        init_def example_env_def)
  have c: "loads (snd (initPreset example_env ''layer2'' False
     (init [''undefined'' \<mapsto> [example_preset ''b'' (Some True)]] Map.empty)))
     = [\<lparr>load_id = ''layer2'', load_apply = False,
         load_presets = Arr [Item (example_preset ''b'' (Some True)),
                             Item (example_preset ''restore'' None)],
         load_promise = 0, load_done = False\<rparr>]"
    by (subst initPreset_Inr[OF b]) (simp add: init_def)
  have d: "layerPresets_of
     (example_env\<lparr>getLayer := (\<lambda>ident. Some \<lparr>filterable = True, getFilterKey = Some ''toString''\<rparr>)\<rparr>)
     ''layer1'' (init Map.empty Map.empty) = Inr (Member ''toString'')"
    by (simp add: layerPresets_of_def filter_name_def get_prop_def
        member_length_def proto_members_def init_def example_env_def)
  from a b c d show ?thesis by (intro conjI)
qed

section \<open>A promise created by initPreset waits for the loader\<close>

subsection \<open>Settling\<close>

lemma settle_other: "p \<noteq> c \<Longrightarrow> promises (settle c res s) ! p = promises s ! p"
  by (simp add: settle_def split: promise.splits)

lemma settle_keeps_fulfilled:
  "promises s ! p = Fulfilled v \<Longrightarrow> promises (settle c res s) ! p = Fulfilled v"
  by (cases "p = c") (auto simp: settle_def split: promise.splits)

lemma settle_pending:
  "c < length (promises s) \<Longrightarrow> promises s ! c = Pending es \<Longrightarrow>
   promises (settle c (Inr v) s) ! c = Fulfilled v"
  by (simp add: settle_def)

lemma entry_targets_update:
  "\<Union> (promise_targets ` set (ps[i := q])) \<subseteq> \<Union> (promise_targets ` set ps) \<union> promise_targets q"
  using set_update_subset_insert[of ps i q] by auto

lemma entry_targets_settle: "entry_targets (settle c res s) \<subseteq> entry_targets s"
proof (cases "c < length (promises s)")
  case False
  then show ?thesis by (simp add: settle_def)
next
  case True
  show ?thesis
  proof (cases "promises s ! c")
    case (Pending es)
    have "promise_targets (case res of Inl r \<Rightarrow> Rejected r | Inr v \<Rightarrow> Fulfilled v) = {}"
      by (simp add: promise_targets_def split: sum.splits)
    with entry_targets_update[of "promises s" c
        "case res of Inl r \<Rightarrow> Rejected r | Inr v \<Rightarrow> Fulfilled v"] Pending True
    show ?thesis by (simp add: settle_def entry_targets_def)
  next
    case (Fulfilled v)
    with True show ?thesis by (simp add: settle_def)
  next
    case (Rejected r)
    with True show ?thesis by (simp add: settle_def)
  qed
qed

lemma queue_targets_settle:
  "queue_targets (settle c res s) \<subseteq> queue_targets s \<union> entry_targets s"
proof (cases "c < length (promises s)")
  case False
  then show ?thesis by (simp add: settle_def)
next
  case True
  show ?thesis
  proof (cases "promises s ! c")
    case (Pending es)
    have "promise_targets (promises s ! c) \<subseteq> entry_targets s"
      using True nth_mem[of c "promises s"] by (fastforce simp: entry_targets_def)
    then have "\<And>a aa b. (a, aa, b) \<in> set es \<Longrightarrow> b \<in> entry_targets s"
      using Pending by (force simp: promise_targets_def)
    then show ?thesis using Pending True
      by (auto simp: settle_def queue_targets_def)
  next
    case (Fulfilled v)
    with True show ?thesis by (simp add: settle_def)
  next
    case (Rejected r)
    with True show ?thesis by (simp add: settle_def)
  qed
qed

subsection \<open>The shape of a callback's effect\<close>

lemma run_task_shape:
  "\<exists>res s1. run_task env t s = settle (task_target t) res s1 \<and>
     microtasks s1 = microtasks s \<and> loads s1 = loads s \<and>
     (promises s1 = promises s \<and> requests s1 = requests s \<or>
      (\<exists>r. promises s1 = promises s @ [Pending []] \<and> requests s1 = requests s @ [r] \<and>
           then_target (req_then r) = length (promises s))) \<and>
     (\<forall>i a ps p. t = RunInit i a ps p \<longrightarrow> res = Inr ps \<and> promises s1 = promises s)"
proof (cases t)
  case (RunParse c res)
  show ?thesis
  proof (cases res)
    case (Inl r)
    show ?thesis
      by (rule exI[of _ "fst (handleLoadError r s)"], rule exI[of _ "snd (handleLoadError r s)"])
        (simp add: RunParse Inl split_def Let_def)
  next
    case (Inr body)
    show ?thesis
      by (rule exI[of _ "fst (parse_callback env body s)"], rule exI[of _ s])
        (simp add: RunParse Inr split_def Let_def)
  qed
next
  case (RunMergeInner ty orig np res)
  show ?thesis
  proof (cases res)
    case (Inl r)
    show ?thesis
      by (rule exI[of _ "fst (handleLoadError r s)"], rule exI[of _ "snd (handleLoadError r s)"])
        (simp add: RunMergeInner Inl split_def Let_def)
  next
    case (Inr body)
    show ?thesis
      by (rule exI[of _ "fst (merge_inner env ty orig np body s)"],
          rule exI[of _ "snd (merge_inner env ty orig np body s)"])
        (simp add: RunMergeInner Inr split_def Let_def)
  qed
next
  case (RunMergeOuter ty url c res)
  show ?thesis
  proof (cases res)
    case (Inl r)
    show ?thesis
      by (rule exI[of _ "fst (handleLoadError r s)"], rule exI[of _ "snd (handleLoadError r s)"])
        (simp add: RunMergeOuter Inl split_def Let_def)
  next
    case (Inr orig)
    show ?thesis
      by (rule exI[of _ "fst (merge_outer ty url orig s)"],
          rule exI[of _ "snd (merge_outer ty url orig s)"])
        (simp add: RunMergeOuter Inr split_def Let_def, simp add: merge_outer_def Let_def)
  qed
next
  case (RunInit i a ps p)
  show ?thesis
    by (rule exI[of _ "Inr ps"],
        rule exI[of _ "if a then applyDefaults i ps s else s"])
      (simp add: RunInit)
qed

lemma run_task_other:
  assumes "p \<noteq> task_target t" and "p < length (promises s)"
  shows "promises (run_task env t s) ! p = promises s ! p"
proof -
  from run_task_shape[of env t s] obtain res s1 where
    r: "run_task env t s = settle (task_target t) res s1" and
    pr: "promises s1 = promises s \<or> promises s1 = promises s @ [Pending []]"
    by auto
  from pr assms(2) have "promises s1 ! p = promises s ! p" by (auto simp: nth_append)
  with r settle_other[OF assms(1), of res s1] show ?thesis by simp
qed

lemma run_task_keeps_fulfilled:
  assumes "p < length (promises s)" and "promises s ! p = Fulfilled v"
  shows "promises (run_task env t s) ! p = Fulfilled v"
proof -
  from run_task_shape[of env t s] obtain res s1 where
    r: "run_task env t s = settle (task_target t) res s1" and
    pr: "promises s1 = promises s \<or> promises s1 = promises s @ [Pending []]"
    by auto
  from pr assms have "promises s1 ! p = Fulfilled v" by (auto simp: nth_append)
  with r settle_keeps_fulfilled[of s1 p v] show ?thesis by simp
qed

lemma run_task_length:
  "length (promises s) \<le> length (promises (run_task env t s))"
proof -
  from run_task_shape[of env t s] obtain res s1 where
    r: "run_task env t s = settle (task_target t) res s1" and
    pr: "promises s1 = promises s \<or> promises s1 = promises s @ [Pending []]"
    by auto
  from pr have "length (promises s) \<le> length (promises s1)" by auto
  with r show ?thesis by simp
qed

lemma run_task_loads [simp]: "loads (run_task env t s) = loads s"
proof -
  from run_task_shape[of env t s] obtain res s1 where
    "run_task env t s = settle (task_target t) res s1" and "loads s1 = loads s"
    by auto
  then show ?thesis by simp
qed

lemma entry_targets_append_pending:
  "promises s1 = promises s @ [Pending []] \<Longrightarrow> entry_targets s1 = entry_targets s"
  by (simp add: entry_targets_def promise_targets_def)

lemma entry_targets_same:
  "promises s1 = promises s \<Longrightarrow> entry_targets s1 = entry_targets s"
  by (simp add: entry_targets_def)

lemma run_task_entry_targets: "entry_targets (run_task env t s) \<subseteq> entry_targets s"
proof -
  from run_task_shape[of env t s] obtain res s1 where
    r: "run_task env t s = settle (task_target t) res s1" and
    pr: "promises s1 = promises s \<or> promises s1 = promises s @ [Pending []]"
    by auto
  from pr have "entry_targets s1 = entry_targets s"
    using entry_targets_append_pending entry_targets_same by blast
  with r entry_targets_settle[of "task_target t" res s1] show ?thesis by simp
qed

lemma run_task_queue_targets:
  "queue_targets (run_task env t s) \<subseteq> queue_targets s \<union> entry_targets s"
proof -
  from run_task_shape[of env t s] obtain res s1 where
    r: "run_task env t s = settle (task_target t) res s1" and
    q: "microtasks s1 = microtasks s" and
    pr: "promises s1 = promises s \<or> promises s1 = promises s @ [Pending []]"
    by auto
  from pr have "entry_targets s1 = entry_targets s"
    using entry_targets_append_pending entry_targets_same by blast
  moreover from q have "queue_targets s1 = queue_targets s" by (simp add: queue_targets_def)
  ultimately show ?thesis
    using r queue_targets_settle[of "task_target t" res s1] by simp
qed

lemma run_task_request_targets:
  "request_targets (run_task env t s) \<subseteq>
   request_targets s \<union> {n. length (promises s) \<le> n \<and> n < length (promises (run_task env t s))}"
proof -
  from run_task_shape[of env t s] obtain res s1 where
    r: "run_task env t s = settle (task_target t) res s1" and
    pr: "promises s1 = promises s \<and> requests s1 = requests s \<or>
      (\<exists>r. promises s1 = promises s @ [Pending []] \<and> requests s1 = requests s @ [r] \<and>
           then_target (req_then r) = length (promises s))"
    by auto
  from pr have "request_targets s1 \<subseteq>
      request_targets s \<union> {n. length (promises s) \<le> n \<and> n < length (promises s1)}"
    by (auto simp: request_targets_def)
  with r show ?thesis by (simp add: request_targets_def)
qed

lemma run_task_targets:
  "targets_but jo (run_task env t s) \<subseteq>
   targets_but jo s \<union> {n. length (promises s) \<le> n \<and> n < length (promises (run_task env t s))}"
  using run_task_entry_targets[of env t s] run_task_queue_targets[of env t s]
    run_task_request_targets[of env t s]
  by (auto simp: targets_but_def load_targets_def)

subsection \<open>Attaching a callback\<close>

lemma then_outer_entry_targets:
  "entry_targets (then_outer q t u s) \<subseteq> entry_targets s \<union> {length (promises s)}"
proof (cases "q < length (promises s)")
  case False
  then show ?thesis
    by (auto simp: then_outer_def Let_def entry_targets_def promise_targets_def)
next
  case True
  show ?thesis
  proof (cases "promises s ! q")
    case (Pending es)
    let ?new = "Pending (es @ [(t, u, length (promises s))])"
    have a: "promise_targets ?new = promise_targets (Pending es) \<union> {length (promises s)}"
      by (auto simp: promise_targets_def)
    have "promises s ! q \<in> set (promises s)" using True by simp
    with Pending have b: "promise_targets (Pending es) \<subseteq> entry_targets s"
      by (auto simp: entry_targets_def)
    have c: "promises (then_outer q t u s) = (promises s @ [Pending []])[q := ?new]"
      using True Pending by (simp add: then_outer_def Let_def)
    have d: "\<Union> (promise_targets ` set (promises s @ [Pending []])) = entry_targets s"
      by (simp add: entry_targets_def promise_targets_def)
    have "entry_targets (then_outer q t u s) \<subseteq>
        \<Union> (promise_targets ` set (promises s @ [Pending []])) \<union> promise_targets ?new"
      unfolding entry_targets_def c by (rule entry_targets_update)
    with a b d show ?thesis by auto
  next
    case (Fulfilled v)
    with True show ?thesis
      by (auto simp: then_outer_def Let_def entry_targets_def promise_targets_def)
  next
    case (Rejected r)
    with True show ?thesis
      by (auto simp: then_outer_def Let_def entry_targets_def promise_targets_def)
  qed
qed

lemma then_outer_queue_targets:
  "queue_targets (then_outer q t u s) \<subseteq> queue_targets s \<union> {length (promises s)}"
  by (auto simp: then_outer_def Let_def queue_targets_def split: promise.splits if_splits)

lemma then_outer_pending:
  assumes "p < length (promises s)" and "promises s ! p = Pending es"
  shows "\<exists>es'. promises (then_outer q t u s) ! p = Pending es'"
  using assms
  by (auto simp: then_outer_def Let_def nth_append nth_list_update split: promise.splits)

lemma then_outer_fulfilled:
  assumes "p < length (promises s)" and "promises s ! p = Fulfilled v"
  shows "promises (then_outer q t u s) ! p = Fulfilled v"
  using assms
  by (auto simp: then_outer_def Let_def nth_append nth_list_update split: promise.splits)

subsection \<open>One event\<close>

lemma targets_but_subset:
  assumes "queue_targets s' \<subseteq> queue_targets s \<union> request_targets s \<union> entry_targets s
              \<union> load_targets jo s \<union> N"
    and "request_targets s' \<subseteq> request_targets s \<union> N"
    and "entry_targets s' \<subseteq> entry_targets s \<union> N"
    and "load_targets jo s' \<subseteq> load_targets jo s \<union> N"
  shows "targets_but jo s' \<subseteq> targets_but jo s \<union> N"
  using assms by (auto simp: targets_but_def)

lemma registerPreset_targets:
  "targets_but jo (snd (registerPreset t u s)) \<subseteq>
   targets_but jo s \<union>
     {n. length (promises s) \<le> n \<and> n < length (promises (snd (registerPreset t u s)))}"
proof (cases "requested s u")
  case True
  then show ?thesis by (simp add: registerPreset_def)
next
  case False
  show ?thesis
  proof (cases "get_prop (presets_map s) t")
    case Missing
    with False show ?thesis
      by (auto simp: registerPreset_def Let_def set_preset_def targets_but_def queue_targets_def
          request_targets_def entry_targets_def promise_targets_def load_targets_def)
  next
    case (Inherited m)
    with False show ?thesis
      by (auto simp: registerPreset_def Let_def targets_but_def queue_targets_def
          request_targets_def entry_targets_def promise_targets_def load_targets_def)
  next
    case (Own q)
    let ?s1 = "s\<lparr>requested_set := insert u (requested_set s)\<rparr>"
    have r: "snd (registerPreset t u s) = then_outer q t u ?s1"
      using False Own by (simp add: registerPreset_def Let_def)
    have same: "queue_targets ?s1 = queue_targets s" "entry_targets ?s1 = entry_targets s"
      "length (promises ?s1) = length (promises s)"
      by (simp_all add: queue_targets_def entry_targets_def)
    have "targets_but jo (then_outer q t u ?s1) \<subseteq> targets_but jo s \<union> {length (promises s)}"
    proof (rule targets_but_subset)
      show "queue_targets (then_outer q t u ?s1) \<subseteq> queue_targets s \<union> request_targets s
              \<union> entry_targets s \<union> load_targets jo s \<union> {length (promises s)}"
        using then_outer_queue_targets[of q t u ?s1] same by auto
      show "request_targets (then_outer q t u ?s1) \<subseteq> request_targets s \<union> {length (promises s)}"
        by (auto simp: request_targets_def)
      show "entry_targets (then_outer q t u ?s1) \<subseteq> entry_targets s \<union> {length (promises s)}"
        using then_outer_entry_targets[of q t u ?s1] same by auto
      show "load_targets jo (then_outer q t u ?s1) \<subseteq> load_targets jo s \<union> {length (promises s)}"
        by (auto simp: load_targets_def)
    qed
    with r show ?thesis by auto
  qed
qed

lemma initPreset_cases:
  "snd (initPreset env i ap s) = s \<or>
   (\<exists>L. layerPresets_of env i s = Inr L \<and>
      snd (initPreset env i ap s) =
        set_preset i (length (promises s))
          (s\<lparr>promises := promises s @ [Pending []],
             loads := loads s @
               [\<lparr>load_id = i, load_apply = ap, load_presets = L,
                 load_promise = length (promises s), load_done = False\<rparr>],
             constructed := constructed s @ [(i, length (promises s))]\<rparr>))"
  by (cases "layerPresets_of env i s") (simp_all add: initPreset_def Let_def)

lemma getPresets_cases:
  "snd (getPresets env i ap s) = s \<or> snd (getPresets env i ap s) = snd (initPreset env i ap s)"
  by (cases "get_prop (presets_map s) i")
    (simp_all add: getPresets_def split: prod.splits option.splits)

lemma initPreset_targets:
  "targets_but jo (snd (initPreset env i ap s)) \<subseteq>
   targets_but jo s \<union>
     {n. length (promises s) \<le> n \<and> n < length (promises (snd (initPreset env i ap s)))}"
  using initPreset_cases[of env i ap s]
  by (auto simp: set_preset_def targets_but_def queue_targets_def
      request_targets_def entry_targets_def promise_targets_def load_targets_def nth_append)

lemma getPresets_targets:
  "targets_but jo (snd (getPresets env i ap s)) \<subseteq>
   targets_but jo s \<union>
     {n. length (promises s) \<le> n \<and> n < length (promises (snd (getPresets env i ap s)))}"
  using getPresets_cases[of env i ap s] initPreset_targets[of jo env i ap s] by auto

lemma initPreset_length:
  "length (promises s) \<le> length (promises (snd (initPreset env i ap s)))"
  using initPreset_cases[of env i ap s] by (auto simp: set_preset_def)

lemma initPreset_nth:
  "p < length (promises s) \<Longrightarrow> promises (snd (initPreset env i ap s)) ! p = promises s ! p"
  using initPreset_cases[of env i ap s] by (auto simp: set_preset_def nth_append)

lemma initPreset_loads:
  "j < length (loads s) \<Longrightarrow>
   j < length (loads (snd (initPreset env i ap s))) \<and>
   loads (snd (initPreset env i ap s)) ! j = loads s ! j"
  using initPreset_cases[of env i ap s] by (auto simp: set_preset_def nth_append)

lemma set_remove_nth: "set (take i q @ drop (Suc i) q) \<subseteq> set q"
  using set_take_subset[of i q] set_drop_subset[of "Suc i" q] by auto

lemma request_targets_done:
  "i < length rs \<Longrightarrow>
   (\<lambda>r. then_target (req_then r)) ` set (rs[i := (rs ! i)\<lparr>req_done := True\<rparr>])
     \<subseteq> (\<lambda>r. then_target (req_then r)) ` set rs"
proof -
  assume i: "i < length rs"
  have "set (rs[i := (rs ! i)\<lparr>req_done := True\<rparr>]) \<subseteq> insert ((rs ! i)\<lparr>req_done := True\<rparr>) (set rs)"
    by (rule set_update_subset_insert)
  moreover have "rs ! i \<in> set rs" using i by simp
  ultimately show ?thesis by force
qed

lemma load_targets_done:
  "load_targets jo (s\<lparr>loads := (loads s)[k := (loads s ! k)\<lparr>load_done := True\<rparr>],
                     microtasks := q\<rparr>) = load_targets jo s"
proof -
  have eq: "load_promise ((loads s)[k := (loads s ! k)\<lparr>load_done := True\<rparr>] ! ka)
      = load_promise (loads s ! ka)" if "ka < length (loads s)" for ka
    using that by (cases "ka = k") simp_all
  show ?thesis
    by (auto simp: load_targets_def) (metis eq)+
qed

lemma step_targets:
  assumes "skips jo e"
  shows "targets_but jo (step env s e) \<subseteq>
         targets_but jo s \<union> {n. length (promises s) \<le> n \<and> n < length (promises (step env s e))}"
proof (cases e)
  case (RegisterPreset t u)
  with registerPreset_targets[of jo t u s] show ?thesis by simp
next
  case (GetPresets i ap)
  with getPresets_targets[of jo env i ap s] show ?thesis by simp
next
  case (InitPreset i ap)
  with initPreset_targets[of jo env i ap s] show ?thesis by simp
next
  case (ApplyDefaults i ps)
  then show ?thesis
    by (auto simp: targets_but_def queue_targets_def request_targets_def entry_targets_def
        load_targets_def)
next
  case (Response i res)
  show ?thesis
  proof (cases "i < length (requests s) \<and> \<not> req_done (requests s ! i)")
    case False
    with Response show ?thesis by auto
  next
    case True
    then have "requests s ! i \<in> set (requests s)" by simp
    then have "then_target (req_then (requests s ! i)) \<in> request_targets s"
      by (auto simp: request_targets_def)
    moreover have "task_target (case req_then (requests s ! i) of
               ThenParse c \<Rightarrow> RunParse c res
             | ThenMerge ty orig np \<Rightarrow> RunMergeInner ty orig np res)
        = then_target (req_then (requests s ! i))"
      by (simp split: request_then.splits)
    moreover note request_targets_done[of i "requests s"]
    ultimately show ?thesis using Response True
      by (auto simp: targets_but_def queue_targets_def request_targets_def entry_targets_def
          load_targets_def)
  qed
next
  case (LoadSettled k ok)
  show ?thesis
  proof (cases "k < length (loads s) \<and> \<not> load_done (loads s ! k)")
    case False
    with LoadSettled show ?thesis by auto
  next
    case True
    from assms LoadSettled have "Some k \<noteq> jo" by (simp add: skips_def)
    with True have "load_promise (loads s ! k) \<in> load_targets jo s"
      by (auto simp: load_targets_def)
    with LoadSettled True show ?thesis
      by (auto simp: targets_but_def queue_targets_def request_targets_def entry_targets_def
          load_targets_done Let_def)
  qed
next
  case (RunTask i)
  show ?thesis
  proof (cases "i < length (microtasks s)")
    case False
    with RunTask show ?thesis by auto
  next
    case True
    let ?s' = "s\<lparr>microtasks := take i (microtasks s) @ drop (Suc i) (microtasks s)\<rparr>"
    have "targets_but jo ?s' \<subseteq> targets_but jo s"
      using set_remove_nth[of i "microtasks s"]
      by (auto simp: targets_but_def queue_targets_def request_targets_def entry_targets_def
          load_targets_def)
    moreover have "length (promises ?s') = length (promises s)" by simp
    moreover note run_task_targets[of jo env "microtasks s ! i" ?s']
    ultimately show ?thesis using RunTask True by auto
  qed
qed

lemma step_length: "length (promises s) \<le> length (promises (step env s e))"
proof (cases e)
  case (RegisterPreset t u)
  then show ?thesis
    by (auto simp: registerPreset_def Let_def set_preset_def split: lookup.splits)
next
  case (GetPresets i ap)
  then show ?thesis
    using getPresets_cases[of env i ap s] initPreset_length[of s env i ap] by auto
next
  case (InitPreset i ap)
  then show ?thesis using initPreset_length[of s env i ap] by simp
next
  case (RunTask i)
  then show ?thesis
    using run_task_length[of "s\<lparr>microtasks := take i (microtasks s) @ drop (Suc i) (microtasks s)\<rparr>"
        env "microtasks s ! i"]
    by auto
qed (auto simp: Let_def)

lemma step_pending:
  assumes "skips jo e" and "p < length (promises s)" and "promises s ! p = Pending es"
    and "p \<notin> targets_but jo s"
  shows "\<exists>es'. promises (step env s e) ! p = Pending es'"
proof (cases e)
  case (RegisterPreset t u)
  show ?thesis
  proof (cases "requested s u")
    case True
    with RegisterPreset assms show ?thesis by (simp add: registerPreset_def)
  next
    case False
    show ?thesis
    proof (cases "get_prop (presets_map s) t")
      case Missing
      with False RegisterPreset assms show ?thesis
        by (simp add: registerPreset_def Let_def set_preset_def nth_append)
    next
      case (Inherited m)
      with False RegisterPreset assms show ?thesis
        by (simp add: registerPreset_def Let_def)
    next
      case (Own q)
      let ?s1 = "s\<lparr>requested_set := insert u (requested_set s)\<rparr>"
      have "\<exists>es'. promises (then_outer q t u ?s1) ! p = Pending es'"
        by (rule then_outer_pending[of p ?s1 es]) (use assms in simp_all)
      with False Own RegisterPreset show ?thesis
        by (simp add: registerPreset_def Let_def)
    qed
  qed
next
  case (GetPresets i ap)
  with assms getPresets_cases[of env i ap s] initPreset_nth[of p s env i ap] show ?thesis
    by auto
next
  case (InitPreset i ap)
  with assms initPreset_nth[of p s env i ap] show ?thesis by auto
next
  case (ApplyDefaults i ps)
  with assms show ?thesis by simp
next
  case (Response i res)
  with assms show ?thesis by auto
next
  case (LoadSettled k ok)
  with assms show ?thesis by (auto simp: Let_def)
next
  case (RunTask i)
  show ?thesis
  proof (cases "i < length (microtasks s)")
    case False
    with RunTask assms show ?thesis by simp
  next
    case True
    let ?s' = "s\<lparr>microtasks := take i (microtasks s) @ drop (Suc i) (microtasks s)\<rparr>"
    from True have "task_target (microtasks s ! i) \<in> queue_targets s"
      by (auto simp: queue_targets_def)
    with assms(4) have "p \<noteq> task_target (microtasks s ! i)"
      by (auto simp: targets_but_def)
    from run_task_other[OF this, of ?s' env] assms(2,3) RunTask True show ?thesis by simp
  qed
qed

lemma step_loads:
  assumes "j < length (loads s)" and "skips (Some j) e"
  shows "j < length (loads (step env s e)) \<and> loads (step env s e) ! j = loads s ! j"
proof (cases e)
  case (GetPresets i ap)
  with assms getPresets_cases[of env i ap s] initPreset_loads[of j s env i ap] show ?thesis
    by auto
next
  case (InitPreset i ap)
  with assms initPreset_loads[of j s env i ap] show ?thesis by auto
next
  case (LoadSettled k ok)
  with assms show ?thesis by (auto simp: skips_def Let_def)
next
  case (RunTask i)
  with assms show ?thesis by auto
qed (use assms in auto)

subsection \<open>The invariants\<close>

lemma well_numbered_init: "well_numbered (init stored applied)"
  by (simp add: well_numbered_def init_def targets_but_def queue_targets_def
      request_targets_def entry_targets_def load_targets_def)

lemma well_numbered_step:
  assumes "well_numbered s"
  shows "well_numbered (step env s e)"
proof -
  have "skips None e" by (simp add: skips_def split: event.splits)
  from step_targets[OF this, of env s] step_length[of s env e] assms
  show ?thesis by (fastforce simp: well_numbered_def)
qed

lemma well_numbered_run: "well_numbered s \<Longrightarrow> well_numbered (run env s evs)"
proof (induction evs arbitrary: s)
  case Nil
  then show ?case by (simp add: run_def)
next
  case (Cons e evs)
  from Cons.IH[OF well_numbered_step[OF Cons.prems, of env e]] show ?case
    by (simp add: run_def)
qed

lemma waiting_step:
  assumes "waiting p j l s" and "skips (Some j) e"
  shows "waiting p j l (step env s e)"
proof -
  from assms(1) obtain es where
    p: "p < length (promises s)" and pe: "promises s ! p = Pending es" and
    j: "j < length (loads s)" and l: "loads s ! j = l" and
    free: "p \<notin> targets_but (Some j) s"
    by (auto simp: waiting_def)
  from step_length[of s env e] p have p': "p < length (promises (step env s e))" by simp
  from step_pending[OF assms(2) p pe free]
  have pe': "\<exists>es'. promises (step env s e) ! p = Pending es'" .
  from step_loads[OF j assms(2), of env] l
  have j': "j < length (loads (step env s e))" "loads (step env s e) ! j = l" by simp_all
  from step_targets[OF assms(2), of env s] free p
  have "p \<notin> targets_but (Some j) (step env s e)" by auto
  with p' pe' j' show ?thesis by (simp add: waiting_def)
qed

lemma waiting_run:
  assumes "waiting p j l s" and "\<forall>e \<in> set evs. skips (Some j) e"
  shows "waiting p j l (run env s evs)"
  using assms
proof (induction evs arbitrary: s)
  case Nil
  then show ?case by (simp add: run_def)
next
  case (Cons e evs)
  from Cons.prems have "skips (Some j) e" "\<forall>e \<in> set evs. skips (Some j) e" by simp_all
  from Cons.IH[OF waiting_step[OF Cons.prems(1) this(1), of env] this(2)] show ?case
    by (simp add: run_def)
qed

lemma waiting_initPreset:
  assumes "well_numbered s" and "layerPresets_of env ident s = Inr L"
  shows "waiting (length (promises s)) (length (loads s))
           \<lparr>load_id = ident, load_apply = ap, load_presets = L,
             load_promise = length (promises s), load_done = False\<rparr>
           (snd (initPreset env ident ap s))"
proof -
  have "targets_but (Some (length (loads s))) (snd (initPreset env ident ap s))
      \<subseteq> targets_but None s"
    using assms(2)
    by (auto simp: initPreset_def Let_def set_preset_def targets_but_def queue_targets_def
        request_targets_def entry_targets_def promise_targets_def load_targets_def nth_append)
  with assms(1) have "length (promises s) \<notin> targets_but (Some (length (loads s)))
      (snd (initPreset env ident ap s))"
    by (auto simp: well_numbered_def)
  then show ?thesis
    by (simp add: waiting_def) (simp add: initPreset_def Let_def set_preset_def assms(2))
qed

lemma waiting_scheduled:
  assumes "waiting p j l s" and "load_promise l = p" and "\<not> load_done l"
  shows "scheduled p (load_presets l) (step env s (LoadSettled j ok))"
proof -
  from assms(1) obtain es where
    p: "p < length (promises s)" and pe: "promises s ! p = Pending es" and
    j: "j < length (loads s)" and l: "loads s ! j = l" and
    free: "p \<notin> targets_but (Some j) s"
    by (auto simp: waiting_def)
  from free have q: "\<forall>t \<in> set (microtasks s). task_target t \<noteq> p" and e: "p \<notin> entry_targets s"
    by (auto simp: targets_but_def queue_targets_def)
  from p pe j l q e assms(2,3) show ?thesis
    by (auto simp: scheduled_def Let_def entry_targets_def)
qed

lemma scheduled_run_task:
  assumes "scheduled p L s" and "microtasks s = t # q"
  shows "scheduled p L (run_task env t (s\<lparr>microtasks := q\<rparr>))"
proof -
  let ?s' = "s\<lparr>microtasks := q\<rparr>"
  from assms(1) have p: "p < length (promises ?s')" by (simp add: scheduled_def)
  with run_task_length[of ?s' env t] have p': "p < length (promises (run_task env t ?s'))"
    by simp
  show ?thesis
  proof (cases "promises s ! p = Fulfilled L")
    case True
    with run_task_keeps_fulfilled[OF p, of L env t] p' show ?thesis
      by (simp add: scheduled_def)
  next
    case False
    with assms(1) obtain es i a where
      pe: "promises s ! p = Pending es" and
      inq: "RunInit i a L p \<in> set (microtasks s)" and
      only: "\<forall>t' \<in> set (microtasks s). task_target t' = p \<longrightarrow> (\<exists>i a. t' = RunInit i a L p)" and
      free: "p \<notin> entry_targets s"
      by (auto simp: scheduled_def)
    show ?thesis
    proof (cases "task_target t = p")
      case True
      with only assms(2) obtain i' a' where t: "t = RunInit i' a' L p" by auto
      from p pe have "promises (run_task env t ?s') ! p = Fulfilled L"
        by (simp add: t settle_pending)
      with p' show ?thesis by (simp add: scheduled_def)
    next
      case False
      then have ne: "p \<noteq> task_target t" by simp
      from run_task_other[OF ne p, of env] pe
      have pe': "promises (run_task env t ?s') ! p = Pending es" by simp
      have free': "p \<notin> entry_targets ?s'" using free by (simp add: entry_targets_def)
      from run_task_entry_targets[of env t ?s'] free'
      have e': "p \<notin> entry_targets (run_task env t ?s')" by auto
      from inq assms(2) False have inq': "RunInit i a L p \<in> set (microtasks ?s')" by auto
      obtain res s1 where
        r: "run_task env t ?s' = settle (task_target t) res s1" and
        m: "microtasks s1 = microtasks ?s'" and
        pr: "promises s1 = promises ?s' \<or> promises s1 = promises ?s' @ [Pending []]"
        using run_task_shape[of env t ?s'] by auto
      from pr have es1: "entry_targets s1 = entry_targets ?s'"
        using entry_targets_append_pending entry_targets_same by blast
      have old: "set (microtasks ?s') \<subseteq> set (microtasks (run_task env t ?s'))"
        unfolding r using m by (auto simp: settle_def split: promise.splits)
      have new: "\<forall>t' \<in> set (microtasks (run_task env t ?s')).
          t' \<in> set (microtasks ?s') \<or> task_target t' \<in> entry_targets s1"
      proof (cases "task_target t < length (promises s1)")
        case False
        then show ?thesis unfolding r using m by (simp add: settle_def)
      next
        case True
        then have mem: "promises s1 ! task_target t \<in> set (promises s1)" by simp
        show ?thesis
        proof (cases "promises s1 ! task_target t")
          case (Pending es1)
          with mem have "\<And>a b c. (a, b, c) \<in> set es1 \<Longrightarrow> c \<in> entry_targets s1"
            by (force simp: entry_targets_def promise_targets_def)
          with Pending True show ?thesis unfolding r using m
            by (auto simp: settle_def)
        next
          case (Fulfilled v)
          with True show ?thesis unfolding r using m by (simp add: settle_def)
        next
          case (Rejected rr)
          with True show ?thesis unfolding r using m by (simp add: settle_def)
        qed
      qed
      have only': "\<forall>t' \<in> set (microtasks (run_task env t ?s')).
          task_target t' = p \<longrightarrow> (\<exists>i a. t' = RunInit i a L p)"
      proof (intro ballI impI)
        fix t' assume t': "t' \<in> set (microtasks (run_task env t ?s'))" "task_target t' = p"
        from new t' have "t' \<in> set (microtasks ?s') \<or> p \<in> entry_targets s1" by auto
        with es1 free' have "t' \<in> set (microtasks ?s')" by simp
        with assms(2) have "t' \<in> set (microtasks s)" by simp
        with only t'(2) show "\<exists>i a. t' = RunInit i a L p" by blast
      qed
      from inq' old have "RunInit i a L p \<in> set (microtasks (run_task env t ?s'))" by auto
      with p' pe' e' only' show ?thesis by (auto simp: scheduled_def)
    qed
  qed
qed

lemma scheduled_drain:
  "scheduled p L s \<Longrightarrow> promises (drain env s) ! p = Fulfilled L"
proof (induction env s rule: drain.induct)
  case (1 env s)
  show ?case
  proof (cases "microtasks s")
    case Nil
    with "1.prems" show ?thesis by (auto simp: drain_Nil scheduled_def)
  next
    case (Cons t q)
    from "1.IH"[OF Cons scheduled_run_task[OF "1.prems" Cons]] show ?thesis
      by (simp add: drain_Cons[OF Cons])
  qed
qed

subsection \<open>A cache entry names a created promise\<close>

lemma run_task_cache:
  assumes "presets_map (run_task env t s) k = Some p"
  shows "presets_map s k = Some p \<or> p = task_target t"
proof (cases t)
  case (RunParse c res)
  with assms show ?thesis by (cases res) (simp_all add: split_def Let_def)
next
  case (RunMergeInner ty orig np res)
  with assms show ?thesis
    by (cases res)
      (auto simp: split_def Let_def merge_inner_def set_preset_def
        split: sum.splits option.splits if_splits)
next
  case (RunMergeOuter ty url c res)
  with assms show ?thesis by (cases res) (simp_all add: split_def Let_def)
next
  case (RunInit i a ps q)
  with assms show ?thesis by (cases a) simp_all
qed

lemma step_cache:
  assumes "presets_map (step env s e) k = Some p"
  shows "presets_map s k = Some p \<or> p \<in> queue_targets s \<or>
         (p = length (promises s) \<and> length (promises s) < length (promises (step env s e)))"
proof (cases e)
  case (RegisterPreset t u)
  with assms show ?thesis
    by (auto simp: registerPreset_def Let_def set_preset_def split: lookup.splits if_splits)
next
  case (GetPresets i ap)
  with assms getPresets_cases[of env i ap s] initPreset_cases[of env i ap s] show ?thesis
    by (auto simp: set_preset_def split: if_splits)
next
  case (InitPreset i ap)
  with assms initPreset_cases[of env i ap s] show ?thesis
    by (auto simp: set_preset_def split: if_splits)
next
  case (ApplyDefaults i ps)
  with assms show ?thesis by simp
next
  case (Response i res)
  with assms show ?thesis by (auto split: if_splits)
next
  case (LoadSettled j ok)
  with assms show ?thesis by (auto simp: Let_def split: if_splits)
next
  case (RunTask i)
  show ?thesis
  proof (cases "i < length (microtasks s)")
    case False
    with RunTask assms show ?thesis by simp
  next
    case True
    let ?s' = "s\<lparr>microtasks := take i (microtasks s) @ drop (Suc i) (microtasks s)\<rparr>"
    from RunTask True assms have "presets_map (run_task env (microtasks s ! i) ?s') k = Some p"
      by simp
    from run_task_cache[OF this] have "presets_map s k = Some p \<or> p = task_target (microtasks s ! i)"
      by simp
    moreover from True have "task_target (microtasks s ! i) \<in> queue_targets s"
      by (auto simp: queue_targets_def)
    ultimately show ?thesis by auto
  qed
qed

lemma cache_created_step:
  assumes "well_numbered s" and "cache_created s"
  shows "cache_created (step env s e)"
  unfolding cache_created_def
proof (intro allI impI)
  fix k p assume "presets_map (step env s e) k = Some p"
  from step_cache[OF this] consider
      "presets_map s k = Some p" | "p \<in> queue_targets s"
    | "p = length (promises s)" "length (promises s) < length (promises (step env s e))"
    by blast
  then have "p < length (promises s) \<or> p < length (promises (step env s e))"
  proof cases
    case 1
    with assms(2) show ?thesis by (simp add: cache_created_def)
  next
    case 2
    then have "p \<in> targets_but None s" by (simp add: targets_but_def)
    with assms(1) show ?thesis by (simp add: well_numbered_def)
  next
    case 3
    then show ?thesis by simp
  qed
  with step_length[of s env e] show "p < length (promises (step env s e))" by auto
qed

lemma cache_created_run:
  "well_numbered s \<Longrightarrow> cache_created s \<Longrightarrow> cache_created (run env s evs)"
proof (induction evs arbitrary: s)
  case Nil
  then show ?case by (simp add: run_def)
next
  case (Cons e evs)
  from Cons.IH[OF well_numbered_step[OF Cons.prems(1), of env e]
      cache_created_step[OF Cons.prems, of env e]]
  show ?case by (simp add: run_def)
qed

lemma cache_created_reachable: "cache_created (run env (init stored applied) evs)"
  by (rule cache_created_run[OF well_numbered_init]) (simp add: cache_created_def init_def)

subsection \<open>getPresets for an id without a cache entry\<close>

lemma skips_no_settling:
  "\<forall>ok. LoadSettled j ok \<notin> set evs \<Longrightarrow> \<forall>e \<in> set evs. skips (Some j) e"
  by (auto simp: skips_def split: event.splits)

text \<open>
  Take any state a new manager can reach, and an id for which \<^verbatim>\<open>this.presets_[id]\<close>
  reads as undefined there (and for which \<^verbatim>\<open>addDefault\<close> does not throw), the
  prototype of \<^verbatim>\<open>presets_\<close> being the one it was created with. Then
  \<open>getPresets\<close> runs \<open>initPreset\<close>: it returns a new promise, which is pending, and
  has asked the feature-action loader for the id. Whatever happens next, as long as the
  loader's promise of that call has not settled, the returned promise stays pending. In
  the turn in which the loader's promise settles, fulfilled or rejected, the returned
  promise is fulfilled with the list of the layer.
\<close>

lemma getPresets_waits_for_loader:
  assumes "get_prop (presets_map (run env (init stored applied) evs)) ident = Missing"
    and "layerPresets_of env ident (run env (init stored applied) evs) = Inr L"
    and "\<not> presets_proto_replaced (run env (init stored applied) evs)"
  shows "let s = run env (init stored applied) evs;
             p = length (promises s); j = length (loads s);
             s1 = snd (getPresets env ident ap s)
         in fst (getPresets env ident ap s) = Inr (Own p) \<and>
            promises s1 ! p = Pending [] \<and>
            loads s1 = loads s @
              [\<lparr>load_id = ident, load_apply = ap, load_presets = L,
                load_promise = p, load_done = False\<rparr>] \<and>
            (\<forall>evs'. (\<forall>ok. LoadSettled j ok \<notin> set evs') \<longrightarrow>
               (\<exists>es. promises (run env s1 evs') ! p = Pending es) \<and>
               (\<forall>ok. promises (turn env (run env s1 evs') (LoadSettled j ok)) ! p
                      = Fulfilled L))"
proof -
  define s where "s = run env (init stored applied) evs"
  define p where "p = length (promises s)"
  define j where "j = length (loads s)"
  define l where "l = \<lparr>load_id = ident, load_apply = ap,
    load_presets = L, load_promise = p, load_done = False\<rparr>"
  define s1 where "s1 = snd (getPresets env ident ap s)"
  from assms(1,2) have none: "get_prop (presets_map s) ident = Missing"
    and lp: "layerPresets_of env ident s = Inr L" by (simp_all add: s_def)
  have ip: "initPreset env ident ap s =
     (None,
      set_preset ident p
        (s\<lparr>promises := promises s @ [Pending []], loads := loads s @ [l],
           constructed := constructed s @ [(ident, p)]\<rparr>))"
    using lp by (simp add: initPreset_def Let_def p_def l_def)
  have s1: "s1 = snd (initPreset env ident ap s)"
    using none ip by (simp add: s1_def getPresets_def)
  have wn: "well_numbered s"
    unfolding s_def by (rule well_numbered_run[OF well_numbered_init])
  have w: "waiting p j l s1"
    unfolding p_def j_def l_def s1 by (rule waiting_initPreset[OF wn lp])
  have ret: "fst (getPresets env ident ap s) = Inr (Own p)"
    using none ip by (simp add: getPresets_def)
  have pend: "promises s1 ! p = Pending []"
    by (simp add: s1 ip p_def)
  have ld: "loads s1 = loads s @ [l]"
    by (simp add: s1 ip)
  have later: "(\<exists>es. promises (run env s1 evs') ! p = Pending es) \<and>
      (\<forall>ok. promises (turn env (run env s1 evs') (LoadSettled j ok)) ! p = Fulfilled L)"
    if "\<forall>ok. LoadSettled j ok \<notin> set evs'" for evs'
  proof -
    from waiting_run[OF w skips_no_settling[OF that], of env]
    have w': "waiting p j l (run env s1 evs')" .
    then have a: "\<exists>es. promises (run env s1 evs') ! p = Pending es"
      by (simp add: waiting_def)
    have "promises (turn env (run env s1 evs') (LoadSettled j ok)) ! p = Fulfilled L" for ok
    proof -
      have "scheduled p (load_presets l) (step env (run env s1 evs') (LoadSettled j ok))"
        by (rule waiting_scheduled[OF w']) (simp_all add: l_def)
      from scheduled_drain[OF this, of env] show ?thesis
        by (simp add: turn_def l_def)
    qed
    with a show ?thesis by simp
  qed
  from ret pend ld later show ?thesis
    unfolding Let_def s_def[symmetric] p_def[symmetric] j_def[symmetric] s1_def[symmetric]
      l_def[symmetric]
    by simp
qed

text \<open>
  C6 says that for every id with no prior cache entry \<open>getPresets\<close> triggers
  \<open>initPreset\<close> and returns a future. On a new manager the id \<^verbatim>\<open>valueOf\<close> has no cache
  entry, but \<^verbatim>\<open>this.presets_['valueOf']\<close> (line 115) reads the function that the plain
  object \<^verbatim>\<open>presets_\<close> inherits from \<^verbatim>\<open>Object.prototype\<close>, which is truthy. So
  \<open>initPreset\<close> is not called: no promise is created, the feature-action loader is not
  asked, the state is unchanged, and what \<open>getPresets\<close> returns (line 119) is that
  function, neither a promise nor \<^verbatim>\<open>undefined\<close>.
\<close>

theorem getPresets_inherited_member:
  "presets_map (init Map.empty Map.empty) ''valueOf'' = None \<and>
   getPresets example_env ''valueOf'' True (init Map.empty Map.empty)
     = (Inr (Inherited ''valueOf''), init Map.empty Map.empty) \<and>
   promises (snd (getPresets example_env ''valueOf'' True (init Map.empty Map.empty))) = [] \<and>
   loads (snd (getPresets example_env ''valueOf'' True (init Map.empty Map.empty))) = []"
proof -
  have a: "presets_map (init Map.empty Map.empty) ''valueOf'' = None"
    by (simp add: init_def)
  have "''valueOf'' \<in> proto_members" by (simp add: proto_members_def)
  with a have "get_prop (presets_map (init Map.empty Map.empty)) ''valueOf''
      = Inherited ''valueOf''"
    by (simp add: get_prop_Inherited)
  then have b: "getPresets example_env ''valueOf'' True (init Map.empty Map.empty)
     = (Inr (Inherited ''valueOf''), init Map.empty Map.empty)"
    by (simp add: getPresets_def)
  have c: "promises (init Map.empty Map.empty) = []" "loads (init Map.empty Map.empty) = []"
    by (simp_all add: init_def)
  from a b c show ?thesis by simp
qed

end
